theory Spec2Isabelle
  imports Main "HOL-Library.Multiset"
begin

section \<open>Domain model\<close>

text \<open>
  A \<open>time.Time\<close> instant is modelled by an integer (its position on the time line);
  \<open>Compare\<close>, \<open>After\<close> and \<open>Before\<close> only look at that position.
  A \<open>*time.Time\<close> is an \<open>option\<close>: \<open>None\<close> is the nil pointer.
\<close>

type_synonym time = int

definition time_Compare :: "time \<Rightarrow> time \<Rightarrow> int" where
  "time_Compare t u = (if t < u then - 1 else if u < t then 1 else 0)"

definition time_After :: "time \<Rightarrow> time \<Rightarrow> bool" where
  "time_After t u = (u < t)"

definition time_Before :: "time \<Rightarrow> time \<Rightarrow> bool" where
  "time_Before t u = (t < u)"

text \<open>
  \<open>feed.Article\<close> of \<^verbatim>\<open>chapter11/api/internal/feed/feed.go\<close> has the five fields of
  the record \<open>Article\<close>. The \<open>Article\<close> of the go-news module has the same five and six
  more: it is the record extension \<open>NewsArticle\<close>. The stores only read \<open>Link\<close> and
  \<open>Published\<close>, so their operations are defined on the record scheme and apply to both.
  Both stores keep \<open>*Article\<close> pointers that are never nil (\<open>ConvertItem\<close> always
  allocates) and never written through, so an article is modelled by its value.
\<close>

record Article =
  Title :: string
  Description :: string
  Link :: string
  Published :: "time option"
  FeedTitle :: string

record Author =
  Name :: string
  Email :: string

record NewsArticle = Article +
  Content :: string
  Updated :: "time option"
  Author :: "Author option"
  GUID :: string
  Categories :: "string list"
  FeedDescription :: string

section \<open>\<open>slices.SortFunc\<close>\<close>

text \<open>
  \<open>slices.SortFunc\<close> belongs to the Go standard library, not to the repository, so the
  store operations take the sort as a parameter \<open>srt\<close>. Its documented contract is:
  the slice is permuted, and when \<open>cmp\<close> is a strict weak ordering the result is in
  ascending order (no later element compares below an earlier one).
\<close>

type_synonym 'a cmpfn = "'a \<Rightarrow> 'a \<Rightarrow> int"
type_synonym 'a sortfn = "'a cmpfn \<Rightarrow> 'a list \<Rightarrow> 'a list"

definition sort_permutes :: "'a sortfn \<Rightarrow> bool" where
  "sort_permutes srt = (\<forall>cmp xs. mset (srt cmp xs) = mset xs)"

definition strict_weak_on :: "'a set \<Rightarrow> 'a cmpfn \<Rightarrow> bool" where
  "strict_weak_on A cmp =
     ((\<forall>a\<in>A. \<forall>b\<in>A. cmp a b < 0 \<longrightarrow> \<not> cmp b a < 0) \<and>
      (\<forall>a\<in>A. \<forall>b\<in>A. \<forall>c\<in>A. \<not> cmp a b < 0 \<longrightarrow> \<not> cmp b c < 0 \<longrightarrow> \<not> cmp a c < 0))"

definition ascending :: "'a cmpfn \<Rightarrow> 'a list \<Rightarrow> bool" where
  "ascending cmp xs = sorted_wrt (\<lambda>a b. \<not> cmp b a < 0) xs"

definition sort_orders :: "'a sortfn \<Rightarrow> bool" where
  "sort_orders srt =
     (\<forall>cmp xs. strict_weak_on (set xs) cmp \<longrightarrow> ascending cmp (srt cmp xs))"

text \<open>
  What the library runs on a slice of at most twelve elements is this insertion sort
  (\<open>insertionSortCmpFunc\<close>):
  \<^verbatim>\<open>
  for i := a + 1; i < b; i++ {
      for j := i; j > a && (cmp(data[j], data[j-1]) < 0); j-- {
          data[j], data[j-1] = data[j-1], data[j]
      }
  }
  \<close>
  \<open>sift cmp x rs\<close> is the inner loop: \<open>rs\<close> is the already processed prefix
  \<open>data[a..i-1]\<close> read from right to left, \<open>x\<close> is \<open>data[i]\<close>, and \<open>x\<close> moves left while it
  compares below its left neighbour.
\<close>

fun sift :: "'a cmpfn \<Rightarrow> 'a \<Rightarrow> 'a list \<Rightarrow> 'a list" where
  "sift cmp x [] = [x]"
| "sift cmp x (y # rs) = (if cmp x y < 0 then y # sift cmp x rs else x # y # rs)"

fun insertion_loop :: "'a cmpfn \<Rightarrow> 'a list \<Rightarrow> 'a list \<Rightarrow> 'a list" where
  "insertion_loop cmp rs [] = rev rs"
| "insertion_loop cmp rs (x # xs) = insertion_loop cmp (sift cmp x rs) xs"

definition insertionSortCmpFunc :: "'a sortfn" where
  "insertionSortCmpFunc cmp xs = insertion_loop cmp [] xs"

section \<open>The go-news article store (deduplicating)\<close>

text \<open>
  \<open>cache\<close> is a \<open>map[string]any\<close> whose values are always nil: only its key set is
  ever read. \<open>sorted_slice\<close> is the field \<open>sorted\<close>. The mutex is not modelled: every
  operation holds it from start to end, so operations are atomic state transformers.
\<close>

record 'm ArticleStore =
  cache :: "string set"
  sorted_slice :: "'m Article_scheme list"

definition NewArticleStore :: "'m ArticleStore" where
  "NewArticleStore = \<lparr>cache = {}, sorted_slice = []\<rparr>"

definition cmp_published :: "'m Article_scheme cmpfn" where
  "cmp_published a b =
     (case Published a of
        None \<Rightarrow> 0
      | Some ta \<Rightarrow> (case Published b of None \<Rightarrow> 0 | Some tb \<Rightarrow> time_Compare tb ta))"

definition AddArticle ::
  "'m Article_scheme sortfn \<Rightarrow> 'm ArticleStore \<Rightarrow> 'm Article_scheme \<Rightarrow> 'm ArticleStore" where
  "AddArticle srt s article =
     (if Link article \<in> cache s then s
      else s\<lparr>cache := insert (Link article) (cache s),
             sorted_slice := srt cmp_published (sorted_slice s @ [article])\<rparr>)"

text \<open>The \<open>for ... range articles\<close> loop of \<open>AddArticles\<close>, with its \<open>dirty\<close> flag.\<close>

fun AddArticles_loop ::
  "'m ArticleStore \<Rightarrow> bool \<Rightarrow> 'm Article_scheme list \<Rightarrow> 'm ArticleStore \<times> bool" where
  "AddArticles_loop s dirty [] = (s, dirty)"
| "AddArticles_loop s dirty (article # rest) =
     (if Link article \<in> cache s then AddArticles_loop s dirty rest
      else AddArticles_loop
             (s\<lparr>cache := insert (Link article) (cache s),
                sorted_slice := sorted_slice s @ [article]\<rparr>) True rest)"

definition AddArticles ::
  "'m Article_scheme sortfn \<Rightarrow> 'm ArticleStore \<Rightarrow> 'm Article_scheme list \<Rightarrow> 'm ArticleStore" where
  "AddArticles srt s articles =
     (case AddArticles_loop s False articles of
        (s', dirty) \<Rightarrow>
          if dirty then s'\<lparr>sorted_slice := srt cmp_published (sorted_slice s')\<rparr> else s')"

datatype panic =
  SliceBoundsOutOfRange int | IndexOutOfRange int | SendOnClosedChannel | CloseOfClosedChannel

text \<open>
  \<open>GetRecent\<close> of the go-news store: \<open>s.sorted[:n]\<close> panics when \<open>n\<close> is negative
  (\<open>n \<le> len\<close> holds on that branch).
\<close>

definition GetRecent :: "'m ArticleStore \<Rightarrow> int \<Rightarrow> panic + 'm Article_scheme list" where
  "GetRecent s n =
     (if n > int (length (sorted_slice s)) then Inr (sorted_slice s)
      else if n < 0 then Inl (SliceBoundsOutOfRange n)
      else Inr (take (nat n) (sorted_slice s)))"

section \<open>The chapter11/api article store (appending)\<close>

record 'm ArticleStore_api =
  articles :: "'m Article_scheme list"

definition NewArticleStore_api :: "'m ArticleStore_api" where
  "NewArticleStore_api = \<lparr>articles = []\<rparr>"

definition cmp_api :: "'m Article_scheme cmpfn" where
  "cmp_api a b =
     (case (Published a, Published b) of
        (None, None) \<Rightarrow> 0
      | (None, Some tb) \<Rightarrow> 1
      | (Some ta, None) \<Rightarrow> - 1
      | (Some ta, Some tb) \<Rightarrow>
          if time_After ta tb then - 1 else if time_Before ta tb then 1 else 0)"

text \<open>\<open>AddArticles\<close> always returns the nil error, so the model returns the store only.\<close>

definition AddArticles_api ::
  "'m Article_scheme sortfn \<Rightarrow> 'm ArticleStore_api \<Rightarrow> 'm Article_scheme list \<Rightarrow> 'm ArticleStore_api" where
  "AddArticles_api srt s new = s\<lparr>articles := srt cmp_api (articles s @ new)\<rparr>"

definition GetRecent_api :: "'m ArticleStore_api \<Rightarrow> int \<Rightarrow> 'm Article_scheme list" where
  "GetRecent_api s n =
     (if n \<le> 0 then []
      else let n' = (if n > int (length (articles s)) then int (length (articles s)) else n)
           in take (nat n') (articles s))"

section \<open>Auxiliary notions used in the statements\<close>

text \<open>
  \<open>fresh_from seen as\<close> lists the elements of \<open>as\<close> whose link is neither in \<open>seen\<close>
  nor carried by an earlier element of \<open>as\<close>: of a batch, the articles a store with
  cache \<open>seen\<close> does not know yet, each link at its first arrival.
\<close>

fun fresh_from :: "string set \<Rightarrow> 'm Article_scheme list \<Rightarrow> 'm Article_scheme list" where
  "fresh_from seen [] = []"
| "fresh_from seen (a # as) =
     (if Link a \<in> seen then fresh_from seen as else a # fresh_from (insert (Link a) seen) as)"

text \<open>Sample articles for the concrete instances: a link and a publication date.\<close>

definition art :: "string \<Rightarrow> time option \<Rightarrow> Article" where
  "art l p = \<lparr>Title = [], Description = [], Link = l, Published = p, FeedTitle = []\<rparr>"

text \<open>
  The order the claims speak of: \<open>newer_first a b\<close> says that \<open>a\<close> may stand before
  \<open>b\<close>, that is, \<open>b\<close> is undated, or both are dated and \<open>a\<close> is not older than \<open>b\<close>.
  A list is \<open>recent_first\<close> when this holds for every pair in list order: publication
  times never increase and no undated article stands before a dated one.
\<close>

definition newer_first :: "'m Article_scheme \<Rightarrow> 'm Article_scheme \<Rightarrow> bool" where
  "newer_first a b =
     (case Published b of
        None \<Rightarrow> True
      | Some tb \<Rightarrow> (case Published a of None \<Rightarrow> False | Some ta \<Rightarrow> tb \<le> ta))"

definition recent_first :: "'m Article_scheme list \<Rightarrow> bool" where
  "recent_first xs = sorted_wrt newer_first xs"

definition repeating_batches :: "Article list list" where
  "repeating_batches =
     [[art ''a'' (Some 5), art ''b'' None, art ''a'' (Some 9)],
      [art ''c'' (Some 7), art ''b'' (Some 1)]]"

definition dated_batches :: "Article list list" where
  "dated_batches =
     [[art ''a'' (Some 5), art ''b'' (Some 10)], [art ''c'' (Some 7), art ''a'' (Some 1)]]"

text \<open>
  The number of \<open>slices.SortFunc\<close> calls of an insertion is measured on the insertion
  itself. The store operations hand the slice to the sort and take back what it returns,
  and nothing else of theirs looks at the slice; so when the sort is replaced by one that
  puts one more element into the slice at every call, the slice ends longer by one
  element per call than when the sort is replaced by one that does nothing.
  \<open>sort_passes m op\<close> is that difference for an operation \<open>op\<close> given as a function of
  the sort it uses.
\<close>

definition marking_sort :: "'a \<Rightarrow> 'a sortfn" where
  "marking_sort m cmp xs = m # xs"

definition sort_passes ::
  "'m Article_scheme \<Rightarrow> ('m Article_scheme sortfn \<Rightarrow> 'm ArticleStore) \<Rightarrow> nat" where
  "sort_passes m op =
     length (sorted_slice (op (marking_sort m))) - length (sorted_slice (op (\<lambda>cmp xs. xs)))"

text \<open>
  A slice is \<open>settled\<close> when no element compares below its left neighbour: the
  insertion sort leaves such a slice as it is.
\<close>

definition settled :: "'m Article_scheme list \<Rightarrow> bool" where
  "settled xs = successively (\<lambda>a b. \<not> cmp_published a b < 0) (rev xs)"


text \<open>A store holding one article, and a batch for it.\<close>

definition one_store :: "unit ArticleStore" where
  "one_store = \<lparr>cache = {''a''}, sorted_slice = [art ''a'' (Some 5)]\<rparr>"

definition next_batch :: "Article list" where
  "next_batch = [art ''b'' (Some 10), art ''a'' (Some 9), art ''c'' (Some 7)]"

definition mixed_batch :: "Article list" where
  "mixed_batch = [art ''b'' (Some 10), art ''u'' None, art ''a'' (Some 9), art ''c'' (Some 7)]"

section \<open>Channels\<close>

text \<open>
  A Go channel as seen between two steps of the goroutines that use it: the buffered
  values, the capacity given to \<open>make\<close>, and whether \<open>close\<close> has run. By the language
  specification a send on a closed channel panics whatever the buffer holds, a send with
  room in the buffer returns at once, and a send on a full buffer blocks until a receiver
  makes room. \<open>close\<close> of a closed channel panics. A receive takes the oldest buffered
  value; on a closed and drained channel it returns at once (with the zero value);
  otherwise it blocks, which is \<open>None\<close>.
\<close>

record 'a chan =
  buf :: "'a list"
  capacity :: nat
  closed :: bool

datatype 'r outcome = Done 'r | Blocks | Panics panic

definition make_chan :: "nat \<Rightarrow> 'a chan" where
  "make_chan n = \<lparr>buf = [], capacity = n, closed = False\<rparr>"

definition send :: "'a chan \<Rightarrow> 'a \<Rightarrow> 'a chan outcome" where
  "send c v =
     (if closed c then Panics SendOnClosedChannel
      else if length (buf c) < capacity c then Done (c\<lparr>buf := buf c @ [v]\<rparr>)
      else Blocks)"

definition close_chan :: "'a chan \<Rightarrow> panic + 'a chan" where
  "close_chan c = (if closed c then Inl CloseOfClosedChannel else Inr (c\<lparr>closed := True\<rparr>))"

datatype 'a received = Value 'a | ClosedEmpty

definition recv :: "'a chan \<Rightarrow> ('a received \<times> 'a chan) option" where
  "recv c =
     (case buf c of
        v # rest \<Rightarrow> Some (Value v, c\<lparr>buf := rest\<rparr>)
      | [] \<Rightarrow> if closed c then Some (ClosedEmpty, c) else None)"

section \<open>The worker pool\<close>

text \<open>
  \<open>NewWorkerPool\<close> makes the job channel with capacity 100 and runs its loop
  \<open>count\<close> times, so a count below one gives no worker. Each \<open>NewWorker\<close> also starts the
  goroutine \<open>run\<close>; \<open>worker_receive\<close> is one turn of that goroutine's
  \<open>for url := range w.incomingFeeds\<close>, seen from the pool: it takes the oldest job if
  there is one. A \<open>Worker\<close> also holds a reference to the pool's channel; the model keeps
  the channel in the pool only.
\<close>

record 'p Worker =
  processor :: 'p

record 'p WorkerPool =
  workers :: "'p Worker list"
  incomingFeeds :: "string chan"

definition NewWorkerPool :: "'p \<Rightarrow> int \<Rightarrow> 'p WorkerPool" where
  "NewWorkerPool p workerCount =
     \<lparr>workers = replicate (nat workerCount) \<lparr>processor = p\<rparr>, incomingFeeds = make_chan 100\<rparr>"

definition Submit :: "'p WorkerPool \<Rightarrow> string \<Rightarrow> 'p WorkerPool outcome" where
  "Submit wp url =
     (case send (incomingFeeds wp) url of
        Done c \<Rightarrow> Done (wp\<lparr>incomingFeeds := c\<rparr>)
      | Blocks \<Rightarrow> Blocks
      | Panics e \<Rightarrow> Panics e)"

definition Stop :: "'p WorkerPool \<Rightarrow> panic + 'p WorkerPool" where
  "Stop wp =
     (case close_chan (incomingFeeds wp) of
        Inl e \<Rightarrow> Inl e
      | Inr c \<Rightarrow> Inr (wp\<lparr>incomingFeeds := c\<rparr>))"

definition worker_receive :: "'p WorkerPool \<Rightarrow> 'p WorkerPool" where
  "worker_receive wp =
     (case recv (incomingFeeds wp) of
        Some (Value url, c) \<Rightarrow> wp\<lparr>incomingFeeds := c\<rparr>
      | _ \<Rightarrow> wp)"

text \<open>
  What can happen to a pool, in any order: calls of \<open>Submit\<close> and \<open>Stop\<close> (a call that
  panics or blocks leaves the pool as it was) and workers taking jobs. \<open>submit_all\<close> is a
  run of \<open>Submit\<close> calls with no worker taking a job in between; it stops at the first
  call that does not return.
\<close>

datatype pool_event = CallSubmit string | CallStop | WorkerReceives

definition pool_after :: "'p WorkerPool \<Rightarrow> pool_event \<Rightarrow> 'p WorkerPool" where
  "pool_after wp ev =
     (case ev of
        CallSubmit url \<Rightarrow> (case Submit wp url of Done wp' \<Rightarrow> wp' | _ \<Rightarrow> wp)
      | CallStop \<Rightarrow> (case Stop wp of Inr wp' \<Rightarrow> wp' | Inl e \<Rightarrow> wp)
      | WorkerReceives \<Rightarrow> worker_receive wp)"

fun submit_all :: "'p WorkerPool \<Rightarrow> string list \<Rightarrow> 'p WorkerPool outcome" where
  "submit_all wp [] = Done wp"
| "submit_all wp (url # urls) =
     (case Submit wp url of
        Done wp' \<Rightarrow> submit_all wp' urls
      | Blocks \<Rightarrow> Blocks
      | Panics e \<Rightarrow> Panics e)"

section \<open>The application and its dispatch loop\<close>

text \<open>
  An \<open>error\<close> is known by its message. \<open>chan error\<close> carries interface values, nil
  included, hence \<open>error option\<close>. Of the \<open>App\<close> struct the fields that \<open>run\<close> and
  \<open>Close\<close> touch are kept (\<open>store\<close> and \<open>fetcher\<close> are not); \<open>console\<close> collects the
  lines \<open>run\<close> prints.
\<close>

datatype error = ErrorString string

fun Error :: "error \<Rightarrow> string" where
  "Error (ErrorString m) = m"

definition Println_error :: "error option \<Rightarrow> string" where
  "Println_error err = ''error: '' @ (case err of None \<Rightarrow> ''<nil>'' | Some e \<Rightarrow> Error e)"

record 'p App =
  feedRead :: "string chan"
  errChan :: "error option chan"
  workerPool :: "'p WorkerPool"
  console :: "string list"

definition NewApp :: "unit App" where
  "NewApp = \<lparr>feedRead = make_chan 5, errChan = make_chan 5,
             workerPool = NewWorkerPool () 3, console = []\<rparr>"

text \<open>
  One turn of \<open>for { select { ... default: } }\<close> in \<open>App.run\<close>. A case is ready when
  its receive would not block; when both are ready the runtime picks one, which is the
  argument \<open>pick_feed\<close>; when none is ready the \<open>default\<close> case does nothing. The
  received value is used without the \<open>ok\<close> flag, so a closed channel hands over the zero
  value. \<open>Returned\<close> stands for leaving the loop, \<open>Parked\<close> for a \<open>Submit\<close> that blocks.
  \<open>run\<close> is the loop for as many turns as there are picks.
\<close>

datatype 'p loop_outcome = Continue "'p App" | Returned "'p App" | Parked "'p App" | Panicked panic

definition zero_or :: "'a \<Rightarrow> 'a received \<Rightarrow> 'a" where
  "zero_or z r = (case r of Value v \<Rightarrow> v | ClosedEmpty \<Rightarrow> z)"

definition case_feed :: "'p App \<Rightarrow> string received \<times> string chan \<Rightarrow> 'p loop_outcome" where
  "case_feed a rc =
     (case Submit (workerPool a) (zero_or [] (fst rc)) of
        Done wp \<Rightarrow> Continue (a\<lparr>feedRead := snd rc, workerPool := wp\<rparr>)
      | Blocks \<Rightarrow> Parked (a\<lparr>feedRead := snd rc\<rparr>)
      | Panics e \<Rightarrow> Panicked e)"

definition case_err :: "'p App \<Rightarrow> error option received \<times> error option chan \<Rightarrow> 'p loop_outcome" where
  "case_err a rc =
     Continue (a\<lparr>errChan := snd rc, console := console a @ [Println_error (zero_or None (fst rc))]\<rparr>)"

definition run_iteration :: "bool \<Rightarrow> 'p App \<Rightarrow> 'p loop_outcome" where
  "run_iteration pick_feed a =
     (case (recv (feedRead a), recv (errChan a)) of
        (None, None) \<Rightarrow> Continue a
      | (Some f, None) \<Rightarrow> case_feed a f
      | (None, Some e) \<Rightarrow> case_err a e
      | (Some f, Some e) \<Rightarrow> if pick_feed then case_feed a f else case_err a e)"

fun run :: "bool list \<Rightarrow> 'p App \<Rightarrow> 'p loop_outcome" where
  "run [] a = Continue a"
| "run (pick # picks) a =
     (case run_iteration pick a of
        Continue a' \<Rightarrow> run picks a'
      | other \<Rightarrow> other)"

text \<open>\<open>App.Close\<close>, and the state it leaves a fresh application in.\<close>

definition Close :: "'p App \<Rightarrow> panic + 'p App" where
  "Close a =
     (case close_chan (feedRead a) of
        Inl e \<Rightarrow> Inl e
      | Inr f \<Rightarrow>
         (case close_chan (errChan a) of
            Inl e \<Rightarrow> Inl e
          | Inr ec \<Rightarrow>
             (case Stop (workerPool a) of
                Inl e \<Rightarrow> Inl e
              | Inr wp \<Rightarrow> Inr (a\<lparr>feedRead := f, errChan := ec, workerPool := wp\<rparr>))))"

definition closed_app :: "unit App" where
  "closed_app =
     \<lparr>feedRead = \<lparr>buf = [], capacity = 5, closed = True\<rparr>,
      errChan = \<lparr>buf = [], capacity = 5, closed = True\<rparr>,
      workerPool = \<lparr>workers = replicate 3 \<lparr>processor = ()\<rparr>,
                    incomingFeeds = \<lparr>buf = [], capacity = 100, closed = True\<rparr>\<rparr>,
      console = []\<rparr>"

section \<open>The synchronous fan-out/fan-in handler\<close>

text \<open>
  \<open>SyncHandler\<close> starts one goroutine per feed URL; each calls \<open>FetchFeedSync\<close> and sends
  the pair of its two results on \<open>resultsChan\<close>, whose capacity is the number of URLs. A
  further goroutine closes the channel once the wait group has counted every sender, and
  the handler ranges over the channel. The fetcher is a parameter \<open>fetch\<close>, giving for a
  URL what \<open>FetchFeedSync\<close> returns for it.

  The state of one call: the URLs whose goroutine has not sent yet, the channel, and
  the two slices the handler fills. The scheduler's choices are the events: some running
  goroutine finishes (its position in \<open>running\<close>), the closer closes the channel (enabled
  when the wait group is at zero), the handler takes the next result. \<open>sync_step\<close> is
  \<open>None\<close> for an event that cannot happen in the state.
\<close>

record 'a result =
  res_articles :: "'a list"
  res_err :: "error option"

record 'a sync_state =
  running :: "string list"
  resultsChan :: "'a result chan"
  errors :: "string list"
  gathered :: "'a list"

datatype sync_event = Finishes nat | ClosesResults | Collects

definition sync_init :: "string list \<Rightarrow> 'a sync_state" where
  "sync_init feedURLs =
     \<lparr>running = feedURLs, resultsChan = make_chan (length feedURLs), errors = [], gathered = []\<rparr>"

definition collect :: "'a sync_state \<Rightarrow> 'a result \<Rightarrow> 'a sync_state" where
  "collect st res =
     (case res_err res of
        Some e \<Rightarrow> st\<lparr>errors := errors st @ [Error e]\<rparr>
      | None \<Rightarrow> st\<lparr>gathered := gathered st @ res_articles res\<rparr>)"

definition sync_step ::
  "(string \<Rightarrow> 'a result) \<Rightarrow> 'a sync_state \<Rightarrow> sync_event \<Rightarrow> 'a sync_state option" where
  "sync_step fetch st ev =
     (case ev of
        Finishes i \<Rightarrow>
          if i < length (running st) then
            (case send (resultsChan st) (fetch (running st ! i)) of
               Done c \<Rightarrow> Some (st\<lparr>running := take i (running st) @ drop (Suc i) (running st),
                                  resultsChan := c\<rparr>)
             | Blocks \<Rightarrow> None
             | Panics e \<Rightarrow> None)
          else None
      | ClosesResults \<Rightarrow>
          if running st = [] \<and> \<not> closed (resultsChan st) then
            (case close_chan (resultsChan st) of
               Inr c \<Rightarrow> Some (st\<lparr>resultsChan := c\<rparr>)
             | Inl e \<Rightarrow> None)
          else None
      | Collects \<Rightarrow>
          (case recv (resultsChan st) of
             Some (Value res, c) \<Rightarrow> Some (collect (st\<lparr>resultsChan := c\<rparr>) res)
           | _ \<Rightarrow> None))"

fun sync_run ::
  "(string \<Rightarrow> 'a result) \<Rightarrow> 'a sync_state \<Rightarrow> sync_event list \<Rightarrow> 'a sync_state option" where
  "sync_run fetch st [] = Some st"
| "sync_run fetch st (ev # evs) =
     (case sync_step fetch st ev of None \<Rightarrow> None | Some st' \<Rightarrow> sync_run fetch st' evs)"

text \<open>
  The \<open>range\<close> loop ends when the channel is closed and drained; the handler then writes
  status 206 with the articles and the error strings when there is any error, and the
  articles alone otherwise. \<open>SyncHandler fetch feedURLs schedule\<close> is the response of the
  call whose goroutines run as \<open>schedule\<close> says, and \<open>None\<close> when \<open>schedule\<close> is not a
  complete run of the call.
\<close>

definition range_done :: "'a sync_state \<Rightarrow> bool" where
  "range_done st = (buf (resultsChan st) = [] \<and> closed (resultsChan st))"

datatype 'a response = StatusOK "'a list" | StatusPartialContent "'a list" "string list"

definition respond :: "'a sync_state \<Rightarrow> 'a response" where
  "respond st =
     (if length (errors st) > 0 then StatusPartialContent (gathered st) (errors st)
      else StatusOK (gathered st))"

definition SyncHandler ::
  "(string \<Rightarrow> 'a result) \<Rightarrow> string list \<Rightarrow> sync_event list \<Rightarrow> 'a response option" where
  "SyncHandler fetch feedURLs schedule =
     (case sync_run fetch (sync_init feedURLs) schedule of
        None \<Rightarrow> None
      | Some st \<Rightarrow> if range_done st then Some (respond st) else None)"

text \<open>
  For the statements: a URL fails when its fetch returns an error, and
  \<open>failure_message\<close> is then the text \<open>err.Error()\<close> of that error.
\<close>

definition failed :: "(string \<Rightarrow> 'a result) \<Rightarrow> string \<Rightarrow> bool" where
  "failed fetch url = (res_err (fetch url) \<noteq> None)"

fun response_articles :: "'a response \<Rightarrow> 'a list" where
  "response_articles (StatusOK as) = as"
| "response_articles (StatusPartialContent as es) = as"

fun response_errors :: "'a response \<Rightarrow> string list" where
  "response_errors (StatusOK as) = []"
| "response_errors (StatusPartialContent as es) = es"

definition failure_message :: "(string \<Rightarrow> 'a result) \<Rightarrow> string \<Rightarrow> string" where
  "failure_message fetch url = (case res_err (fetch url) of Some e \<Rightarrow> Error e | None \<Rightarrow> [])"

text \<open>
  For the proofs: the error strings and the articles a list of results contributes, the
  invariant of a call (every result is, exactly once, either still to be produced, or in
  the channel, or collected), and the number of events a state is away from the end.
\<close>

definition error_strings :: "'a result list \<Rightarrow> string list" where
  "error_strings rs = concat (map (\<lambda>r. case res_err r of Some e \<Rightarrow> [Error e] | None \<Rightarrow> []) rs)"

definition fetched :: "'a result list \<Rightarrow> 'a list" where
  "fetched rs = concat (map (\<lambda>r. case res_err r of Some e \<Rightarrow> [] | None \<Rightarrow> res_articles r) rs)"

definition sync_inv :: "(string \<Rightarrow> 'a result) \<Rightarrow> string list \<Rightarrow> 'a sync_state \<Rightarrow> bool" where
  "sync_inv fetch urls st =
     (mset (errors st) + mset (error_strings (buf (resultsChan st) @ map fetch (running st)))
        = mset (error_strings (map fetch urls)) \<and>
      mset (gathered st) + mset (fetched (buf (resultsChan st) @ map fetch (running st)))
        = mset (fetched (map fetch urls)) \<and>
      (closed (resultsChan st) \<longrightarrow> running st = []) \<and>
      capacity (resultsChan st) = length urls \<and>
      length (buf (resultsChan st)) + length (running st) \<le> length urls)"

definition sync_measure :: "'a sync_state \<Rightarrow> nat" where
  "sync_measure st =
     2 * length (running st) + length (buf (resultsChan st)) +
     (if closed (resultsChan st) then 0 else 1)"

text \<open>
  Sample fetchers and a sample schedule: the feed \<open>bad\<close> answers 404, every other feed
  has one article; and a fetcher for which every feed answers 404.
\<close>

definition fetch_sample :: "string \<Rightarrow> Article result" where
  "fetch_sample url =
     (if url = ''bad''
      then \<lparr>res_articles = [], res_err = Some (ErrorString ''http error: 404 Not Found'')\<rparr>
      else \<lparr>res_articles = [art url (Some 1)], res_err = None\<rparr>)"

definition fetch_404 :: "string \<Rightarrow> Article result" where
  "fetch_404 url =
     \<lparr>res_articles = [], res_err = Some (ErrorString ''http error: 404 Not Found'')\<rparr>"

definition schedule_sample :: "sync_event list" where
  "schedule_sample =
     [Finishes 2, Finishes 0, Collects, Finishes 0, ClosesResults, Collects, Collects]"

section \<open>Slices and their backing arrays\<close>

text \<open>
  Whether \<open>GetRecent\<close> hands out a copy is a question about aliasing, so here a slice
  is what Go makes it: a header (backing array, length, capacity) beside a heap of
  arrays. The stores slice from index 0 only, so a header needs no offset. The elements
  are \<open>*Article\<close> pointers: \<open>None\<close> is nil, and a pointer is given by the article it
  points to. \<open>make_slice\<close> is \<open>make([]*Article, n)\<close>, \<open>reslice sl n\<close> is \<open>sl[:n]\<close>,
  \<open>copy_slice\<close> is the builtin \<open>copy\<close>, and \<open>store_index h sl i v\<close> is the assignment
  \<open>sl[i] = v\<close>.
\<close>

type_synonym 'a heap = "'a option list list"

record slice =
  sl_array :: nat
  sl_len :: nat
  sl_cap :: nat

definition make_slice :: "'a heap \<Rightarrow> nat \<Rightarrow> slice \<times> 'a heap" where
  "make_slice h n = (\<lparr>sl_array = length h, sl_len = n, sl_cap = n\<rparr>, h @ [replicate n None])"

definition elems :: "'a heap \<Rightarrow> slice \<Rightarrow> 'a option list" where
  "elems h sl = take (sl_len sl) (h ! sl_array sl)"

definition reslice :: "slice \<Rightarrow> int \<Rightarrow> panic + slice" where
  "reslice sl n =
     (if n < 0 \<or> int (sl_cap sl) < n then Inl (SliceBoundsOutOfRange n) else Inr (sl\<lparr>sl_len := nat n\<rparr>))"

definition copy_slice :: "'a heap \<Rightarrow> slice \<Rightarrow> slice \<Rightarrow> 'a heap" where
  "copy_slice h dst src =
     (let k = min (sl_len dst) (sl_len src)
      in h[sl_array dst := take k (h ! sl_array src) @ drop k (h ! sl_array dst)])"

definition store_index :: "'a heap \<Rightarrow> slice \<Rightarrow> int \<Rightarrow> 'a option \<Rightarrow> panic + 'a heap" where
  "store_index h sl i v =
     (if i < 0 \<or> int (sl_len sl) \<le> i then Inl (IndexOutOfRange i)
      else Inr (h[sl_array sl := (h ! sl_array sl)[nat i := v]]))"

text \<open>
  \<open>GetRecent\<close> of the two stores on this heap. The chapter11/api one allocates
  \<open>result\<close> and copies into it; the go-news one returns \<open>s.sorted\<close> or \<open>s.sorted[:n]\<close>.
  \<open>slice_ok\<close> is the well-formedness the runtime maintains for any slice.
\<close>

record ArticleStore_api_mem =
  articles_mem :: slice

definition GetRecent_api_mem ::
  "'a heap \<Rightarrow> ArticleStore_api_mem \<Rightarrow> int \<Rightarrow> panic + slice \<times> 'a heap" where
  "GetRecent_api_mem h s n =
     (if n \<le> 0 then Inr (make_slice h 0)
      else let n' = (if n > int (sl_len (articles_mem s)) then int (sl_len (articles_mem s)) else n)
           in case make_slice h (nat n') of
                (result, h1) \<Rightarrow>
                  (case reslice (articles_mem s) n' of
                     Inl e \<Rightarrow> Inl e
                   | Inr src \<Rightarrow> Inr (result, copy_slice h1 result src)))"

record ArticleStore_mem =
  cache_mem :: "string set"
  sorted_mem :: slice

definition GetRecent_mem :: "ArticleStore_mem \<Rightarrow> int \<Rightarrow> panic + slice" where
  "GetRecent_mem s n =
     (if n > int (sl_len (sorted_mem s)) then Inr (sorted_mem s) else reslice (sorted_mem s) n)"

definition slice_ok :: "'a heap \<Rightarrow> slice \<Rightarrow> bool" where
  "slice_ok h sl =
     (sl_array sl < length h \<and> sl_len sl \<le> sl_cap sl \<and> sl_cap sl \<le> length (h ! sl_array sl))"

text \<open>A heap with one array of two articles, and the two stores holding it.\<close>

definition two_heap :: "Article heap" where
  "two_heap = [[Some (art ''a'' (Some 10)), Some (art ''b'' (Some 5))]]"

definition two_store :: ArticleStore_mem where
  "two_store = \<lparr>cache_mem = {''a'', ''b''}, sorted_mem = \<lparr>sl_array = 0, sl_len = 2, sl_cap = 2\<rparr>\<rparr>"

definition two_store_api :: ArticleStore_api_mem where
  "two_store_api = \<lparr>articles_mem = \<lparr>sl_array = 0, sl_len = 2, sl_cap = 2\<rparr>\<rparr>"


section \<open>The insertion sort permutes\<close>

lemma mset_sift: "mset (sift cmp x rs) = add_mset x (mset rs)"
  by (induction rs) auto

lemma mset_insertion_loop: "mset (insertion_loop cmp rs xs) = mset rs + mset xs"
  by (induction xs arbitrary: rs) (auto simp: mset_sift)

lemma sort_permutes_insertion: "sort_permutes insertionSortCmpFunc"
  by (simp add: sort_permutes_def insertionSortCmpFunc_def mset_insertion_loop)

section \<open>Deduplication in the go-news store\<close>

lemma loop_slice:
  "sorted_slice (fst (AddArticles_loop s d as)) = sorted_slice s @ fresh_from (cache s) as"
  by (induction as arbitrary: s d) auto

lemma loop_cache: "cache (fst (AddArticles_loop s d as)) = cache s \<union> Link ` set as"
  by (induction as arbitrary: s d) auto

lemma loop_dirty: "snd (AddArticles_loop s d as) = (d \<or> fresh_from (cache s) as \<noteq> [])"
  by (induction as arbitrary: s d) auto

lemma fresh_from_links: "Link ` set (fresh_from seen as) = Link ` set as - seen"
  by (induction as arbitrary: seen) auto

lemma fresh_from_distinct: "distinct (map Link (fresh_from seen as))"
  by (induction as arbitrary: seen) (auto simp: fresh_from_links)

lemma fresh_from_append:
  "fresh_from seen (as @ bs) = fresh_from seen as @ fresh_from (seen \<union> Link ` set as) bs"
  by (induction as arbitrary: seen) (auto simp: insert_absorb)

lemma fresh_from_unseen: "a \<in> set (fresh_from seen as) \<Longrightarrow> Link a \<notin> seen"
  using fresh_from_links[of seen as] by blast

lemma fresh_from_first:
  "a \<in> set (fresh_from seen as) \<Longrightarrow> find (\<lambda>b. Link b = Link a) as = Some a"
proof (induction as arbitrary: seen)
  case Nil
  then show ?case by simp
next
  case (Cons x as)
  show ?case
  proof (cases "Link x = Link a")
    case True
    with Cons.prems have "a = x"
      using fresh_from_unseen[of a seen as] fresh_from_unseen[of a "insert (Link x) seen" as]
      by (auto split: if_splits)
    then show ?thesis by simp
  next
    case False
    with Cons show ?thesis by (auto split: if_splits)
  qed
qed

lemma AddArticles_mset:
  assumes "sort_permutes srt"
  shows "mset (sorted_slice (AddArticles srt s as)) =
         mset (sorted_slice s) + mset (fresh_from (cache s) as)"
proof -
  obtain s' d where L: "AddArticles_loop s False as = (s', d)"
    by (cases "AddArticles_loop s False as")
  have "sorted_slice s' = sorted_slice s @ fresh_from (cache s) as"
    using loop_slice[of s False as] L by simp
  then show ?thesis using assms L by (simp add: AddArticles_def sort_permutes_def)
qed

lemma AddArticles_cache: "cache (AddArticles srt s as) = cache s \<union> Link ` set as"
proof -
  obtain s' d where L: "AddArticles_loop s False as = (s', d)"
    by (cases "AddArticles_loop s False as")
  have "cache s' = cache s \<union> Link ` set as" using loop_cache[of s False as] L by simp
  then show ?thesis using L by (simp add: AddArticles_def)
qed

lemma foldl_AddArticles:
  assumes "sort_permutes srt"
  shows "mset (sorted_slice (foldl (AddArticles srt) s bs)) =
           mset (sorted_slice s) + mset (fresh_from (cache s) (concat bs)) \<and>
         cache (foldl (AddArticles srt) s bs) = cache s \<union> Link ` set (concat bs)"
proof (induction bs arbitrary: s)
  case Nil
  show ?case by simp
next
  case (Cons b bs)
  show ?case
    using Cons.IH[of "AddArticles srt s b"]
    by (simp add: AddArticles_mset[OF assms] AddArticles_cache fresh_from_append
        image_Un Un_assoc)
qed

lemma foldl_AddArticles_api:
  assumes "sort_permutes srt"
  shows "mset (articles (foldl (AddArticles_api srt) s bs)) = mset (articles s) + mset (concat bs)"
proof (induction bs arbitrary: s)
  case Nil
  show ?case by simp
next
  case (Cons b bs)
  have "mset (articles (AddArticles_api srt s b)) = mset (articles s) + mset b"
    using assms by (simp add: AddArticles_api_def sort_permutes_def)
  then show ?case using Cons.IH[of "AddArticles_api srt s b"] by simp
qed

text \<open>
  C1 (as amended). Whatever the batches and whatever permutation the sort returns,
  after any sequence of \<open>AddArticles\<close> calls on the empty go-news store no two stored
  articles share a \<open>Link\<close>, the number of stored articles is the number of distinct
  links that arrived, the cache holds exactly those links, and every stored article is
  the first arrival carrying its link (later copies are dropped). The chapter11/api
  store keeps every article of every batch.
\<close>

theorem dedup_invariant:
  assumes "sort_permutes srt"
  shows "(let arrivals = concat batches;
              s = foldl (AddArticles srt) NewArticleStore batches
          in distinct (map Link (sorted_slice s)) \<and>
             length (sorted_slice s) = card (Link ` set arrivals) \<and>
             cache s = Link ` set arrivals \<and>
             (\<forall>a\<in>set (sorted_slice s). find (\<lambda>b. Link b = Link a) arrivals = Some a)) \<and>
         length (articles (foldl (AddArticles_api srt) NewArticleStore_api batches)) =
           length (concat batches)"
proof -
  define arrivals where "arrivals = concat batches"
  define s where "s = foldl (AddArticles srt) (NewArticleStore :: 'a ArticleStore) batches"
  define kept where "kept = fresh_from {} arrivals"
  have M: "mset (sorted_slice s) = mset kept" and C: "cache s = Link ` set arrivals"
    using foldl_AddArticles[OF assms, of "NewArticleStore" batches]
    by (simp_all add: s_def kept_def arrivals_def NewArticleStore_def)
  have "mset (map Link (sorted_slice s)) = mset (map Link kept)"
    using M by (metis mset_map)
  then have D: "distinct (map Link (sorted_slice s))"
    using fresh_from_distinct[of "{}" arrivals] by (metis kept_def mset_eq_imp_distinct_iff)
  have "length (sorted_slice s) = length (map Link kept)"
    using M by (metis size_mset length_map)
  also have "\<dots> = card (set (map Link kept))"
    using distinct_card[OF fresh_from_distinct[of "{}" arrivals]] by (simp add: kept_def)
  also have "\<dots> = card (Link ` set arrivals)"
    by (simp add: kept_def fresh_from_links)
  finally have L: "length (sorted_slice s) = card (Link ` set arrivals)" .
  have "set (sorted_slice s) = set kept"
    using M by (metis set_mset_mset)
  then have F: "\<forall>a\<in>set (sorted_slice s). find (\<lambda>b. Link b = Link a) arrivals = Some a"
    using fresh_from_first by (auto simp: kept_def)
  have "mset (articles (foldl (AddArticles_api srt) (NewArticleStore_api :: 'a ArticleStore_api)
          batches)) = mset (concat batches)"
    using foldl_AddArticles_api[OF assms, of NewArticleStore_api batches]
    by (simp add: NewArticleStore_api_def)
  then have A: "length (articles (foldl (AddArticles_api srt)
          (NewArticleStore_api :: 'a ArticleStore_api) batches)) = length (concat batches)"
    by (metis size_mset)
  show ?thesis using D L C F A by (simp add: Let_def arrivals_def s_def)
qed

theorem dedup_invariant_witness:
  "sort_permutes (insertionSortCmpFunc :: Article sortfn) \<and>
   (let arrivals = concat repeating_batches;
        s = foldl (AddArticles insertionSortCmpFunc) NewArticleStore repeating_batches
    in distinct (map Link (sorted_slice s)) \<and>
       length (sorted_slice s) = card (Link ` set arrivals) \<and>
       cache s = Link ` set arrivals \<and>
       (\<forall>a\<in>set (sorted_slice s). find (\<lambda>b. Link b = Link a) arrivals = Some a)) \<and>
   length (articles (foldl (AddArticles_api insertionSortCmpFunc) NewArticleStore_api
     repeating_batches)) = length (concat repeating_batches)"
proof -
  have h: "sort_permutes (insertionSortCmpFunc :: Article sortfn)"
    by (rule sort_permutes_insertion)
  from h dedup_invariant[OF h, of repeating_batches]
  show ?thesis by (rule conjI)
qed

lemma repeating_batches_stored:
  "map Link (sorted_slice (foldl (AddArticles insertionSortCmpFunc) NewArticleStore
      repeating_batches)) = [''a'', ''b'', ''c''] \<and>
   map Published (sorted_slice (foldl (AddArticles insertionSortCmpFunc) NewArticleStore
      repeating_batches)) = [Some 5, None, Some 7]"
  by (simp add: AddArticles_def NewArticleStore_def insertionSortCmpFunc_def
      repeating_batches_def cmp_published_def time_Compare_def art_def)

text \<open>
  C1 as stated fails on the chapter11/api store, which appends every article: adding the
  same article in two batches stores it twice.
\<close>

theorem api_store_keeps_duplicates:
  "length (articles (foldl (AddArticles_api insertionSortCmpFunc) NewArticleStore_api
             [[art ''x'' (Some 1)], [art ''x'' (Some 1)]])) = 2 \<and>
   card (Link ` set (concat [[art ''x'' (Some 1)], [art ''x'' (Some 1)]])) = 1 \<and>
   \<not> distinct (map Link (articles (foldl (AddArticles_api insertionSortCmpFunc)
             NewArticleStore_api [[art ''x'' (Some 1)], [art ''x'' (Some 1)]])))"
  by (simp add: AddArticles_api_def NewArticleStore_api_def insertionSortCmpFunc_def
      cmp_api_def time_After_def time_Before_def art_def)

section \<open>The insertion sort orders under a strict weak ordering\<close>

lemma set_sift: "set (sift cmp x rs) = insert x (set rs)"
  by (induction rs) auto

lemma sift_ordered:
  assumes "strict_weak_on A cmp" "insert x (set rs) \<subseteq> A"
    and "sorted_wrt (\<lambda>a b. \<not> cmp a b < 0) rs"
  shows "sorted_wrt (\<lambda>a b. \<not> cmp a b < 0) (sift cmp x rs)"
  using assms(2,3)
proof (induction rs)
  case Nil
  then show ?case by simp
next
  case (Cons y rs)
  have asym: "\<And>a b. a \<in> A \<Longrightarrow> b \<in> A \<Longrightarrow> cmp a b < 0 \<Longrightarrow> \<not> cmp b a < 0"
    and ntr: "\<And>a b c. a \<in> A \<Longrightarrow> b \<in> A \<Longrightarrow> c \<in> A \<Longrightarrow>
                \<not> cmp a b < 0 \<Longrightarrow> \<not> cmp b c < 0 \<Longrightarrow> \<not> cmp a c < 0"
    using assms(1) unfolding strict_weak_on_def by blast+
  show ?case
  proof (cases "cmp x y < 0")
    case True
    have IH: "sorted_wrt (\<lambda>a b. \<not> cmp a b < 0) (sift cmp x rs)"
      using Cons by auto
    have "\<forall>z\<in>set (sift cmp x rs). \<not> cmp y z < 0"
      using Cons.prems True asym[of x y] by (auto simp: set_sift)
    with IH True show ?thesis by simp
  next
    case False
    have "\<forall>z\<in>set rs. \<not> cmp x z < 0"
    proof
      fix z
      assume z: "z \<in> set rs"
      then have "\<not> cmp y z < 0" using Cons.prems by auto
      then show "\<not> cmp x z < 0" using ntr[of x y z] False z Cons.prems by auto
    qed
    with False Cons.prems show ?thesis by simp
  qed
qed

lemma insertion_loop_ordered:
  assumes "strict_weak_on A cmp"
  shows "set rs \<union> set xs \<subseteq> A \<Longrightarrow> sorted_wrt (\<lambda>a b. \<not> cmp a b < 0) rs \<Longrightarrow>
         ascending cmp (insertion_loop cmp rs xs)"
proof (induction xs arbitrary: rs)
  case Nil
  then show ?case by (simp add: ascending_def sorted_wrt_rev)
next
  case (Cons x xs)
  have "sorted_wrt (\<lambda>a b. \<not> cmp a b < 0) (sift cmp x rs)"
    using sift_ordered[OF assms, of x rs] Cons.prems by auto
  moreover have "set (sift cmp x rs) \<union> set xs \<subseteq> A"
    using Cons.prems by (auto simp: set_sift)
  ultimately show ?case using Cons.IH by simp
qed

lemma sort_orders_insertion: "sort_orders insertionSortCmpFunc"
  unfolding sort_orders_def insertionSortCmpFunc_def
  using insertion_loop_ordered[where rs="[]"] by fastforce

section \<open>The two comparators\<close>

lemma cmp_api_swo: "strict_weak_on A cmp_api"
  unfolding strict_weak_on_def cmp_api_def time_After_def time_Before_def
  by (auto split: option.splits if_splits)

lemma cmp_api_newer: "(\<not> cmp_api b a < 0) = newer_first a b"
  unfolding cmp_api_def newer_first_def time_After_def time_Before_def
  by (auto split: option.splits)

lemma ascending_api: "ascending cmp_api xs = recent_first xs"
  by (simp add: ascending_def recent_first_def cmp_api_newer)

lemma cmp_published_swo: "\<forall>a\<in>A. Published a \<noteq> None \<Longrightarrow> strict_weak_on A cmp_published"
  unfolding strict_weak_on_def cmp_published_def time_Compare_def
  by (auto split: option.splits if_splits)

lemma cmp_published_newer:
  "Published a \<noteq> None \<Longrightarrow> Published b \<noteq> None \<Longrightarrow>
   (\<not> cmp_published b a < 0) = newer_first a b"
  unfolding cmp_published_def newer_first_def time_Compare_def
  by (auto split: option.splits)

lemma ascending_published:
  "\<forall>a\<in>set xs. Published a \<noteq> None \<Longrightarrow> ascending cmp_published xs = recent_first xs"
  unfolding ascending_def recent_first_def
  by (rule iffI; erule sorted_wrt_mono_rel[rotated]) (simp_all add: cmp_published_newer)

section \<open>Reading the most recent articles\<close>

lemma api_reachable_ordered:
  assumes "sort_orders srt"
  shows "recent_first (articles (foldl (AddArticles_api srt) NewArticleStore_api batches))"
proof (cases batches rule: rev_cases)
  case Nil
  then show ?thesis by (simp add: NewArticleStore_api_def recent_first_def)
next
  case (snoc bs b)
  have "ascending cmp_api (srt cmp_api xs)" for xs :: "'a Article_scheme list"
    using assms cmp_api_swo unfolding sort_orders_def by blast
  then show ?thesis using snoc by (simp add: AddArticles_api_def ascending_api)
qed

lemma recent_first_take: "recent_first xs \<Longrightarrow> recent_first (take k xs)"
  unfolding recent_first_def by (rule sorted_wrt_take)

lemma GetRecent_api_take: "GetRecent_api s n = take (nat n) (articles s)"
  by (auto simp: GetRecent_api_def Let_def)

lemma GetRecent_api_length:
  "int (length (GetRecent_api s n)) = min (max n 0) (int (length (articles s)))"
  by (auto simp: GetRecent_api_take)

lemma fresh_from_subset: "set (fresh_from seen as) \<subseteq> set as"
  by (induction as arbitrary: seen) auto

lemma AddArticles_slice:
  "sorted_slice (AddArticles srt s as) =
     (if fresh_from (cache s) as = [] then sorted_slice s
      else srt cmp_published (sorted_slice s @ fresh_from (cache s) as))"
proof -
  obtain s' d where L: "AddArticles_loop s False as = (s', d)"
    by (cases "AddArticles_loop s False as")
  have "sorted_slice s' = sorted_slice s @ fresh_from (cache s) as"
    and "d = (fresh_from (cache s) as \<noteq> [])"
    using loop_slice[of s False as] loop_dirty[of s False as] L by simp_all
  then show ?thesis using L by (simp add: AddArticles_def)
qed

lemma AddArticle_as_batch: "AddArticle srt s a = AddArticles srt s [a]"
  by (simp add: AddArticle_def AddArticles_def)

lemma gonews_step_ordered:
  assumes P: "sort_permutes srt" and O: "sort_orders srt"
    and I: "recent_first (sorted_slice s)" "\<forall>a\<in>set (sorted_slice s). Published a \<noteq> None"
    and B: "\<forall>a\<in>set b. Published a \<noteq> None"
  shows "recent_first (sorted_slice (AddArticles srt s b)) \<and>
         (\<forall>a\<in>set (sorted_slice (AddArticles srt s b)). Published a \<noteq> None)"
proof (cases "fresh_from (cache s) b = []")
  case True
  then show ?thesis using I by (simp add: AddArticles_slice)
next
  case False
  define l where "l = sorted_slice s @ fresh_from (cache s) b"
  have dated: "\<forall>a\<in>set l. Published a \<noteq> None"
    using I(2) B fresh_from_subset[of "cache s" b] by (auto simp: l_def)
  have S: "set (srt cmp_published l) = set l"
    using P unfolding sort_permutes_def by (metis set_mset_mset)
  have "ascending cmp_published (srt cmp_published l)"
    using O cmp_published_swo[OF dated] unfolding sort_orders_def by blast
  then have "recent_first (srt cmp_published l)"
    using ascending_published[of "srt cmp_published l"] dated S by simp
  then show ?thesis using False dated S by (simp add: AddArticles_slice l_def)
qed

lemma gonews_foldl_ordered:
  assumes P: "sort_permutes srt" and O: "sort_orders srt"
  shows "recent_first (sorted_slice s) \<Longrightarrow> \<forall>a\<in>set (sorted_slice s). Published a \<noteq> None \<Longrightarrow>
         \<forall>a\<in>set (concat bs). Published a \<noteq> None \<Longrightarrow>
         recent_first (sorted_slice (foldl (AddArticles srt) s bs))"
proof (induction bs arbitrary: s)
  case Nil
  then show ?case by simp
next
  case (Cons b bs)
  have "recent_first (sorted_slice (AddArticles srt s b)) \<and>
        (\<forall>a\<in>set (sorted_slice (AddArticles srt s b)). Published a \<noteq> None)"
    using gonews_step_ordered[OF P O Cons.prems(1,2), of b] Cons.prems(3) by simp
  then show ?case using Cons.IH[of "AddArticles srt s b"] Cons.prems(3) by simp
qed

lemma gonews_reachable_ordered:
  assumes "sort_permutes srt" "sort_orders srt" "\<forall>a\<in>set (concat bs). Published a \<noteq> None"
  shows "recent_first (sorted_slice (foldl (AddArticles srt) NewArticleStore bs))"
  using gonews_foldl_ordered[OF assms(1,2), of NewArticleStore bs] assms(3)
  by (simp add: NewArticleStore_def recent_first_def)

lemma GetRecent_nonneg:
  "0 \<le> n \<Longrightarrow> GetRecent s n = Inr (take (nat n) (sorted_slice s))"
  by (auto simp: GetRecent_def)

text \<open>
  What holds of the order. In every state reached from the empty chapter11/api store by
  \<open>AddArticles\<close> calls, for every integer \<open>n\<close>, \<open>GetRecent n\<close> lists articles with
  publication times never increasing and every undated article after all dated ones, and
  its length is \<open>min (max n 0) count\<close>. In every state reached from the empty go-news
  store, for every \<open>n \<ge> 0\<close>, \<open>GetRecent n\<close> returns a list of length \<open>min n count\<close>,
  and that list is in the same order when every inserted article is dated. The sort is
  any function that permutes and that orders under a strict weak ordering.
\<close>

lemma recent_order_and_length:
  assumes "sort_permutes srt" and "sort_orders srt"
  shows "(let s = foldl (AddArticles_api srt) NewArticleStore_api batches;
              r = GetRecent_api s n
          in recent_first r \<and> int (length r) = min (max n 0) (int (length (articles s)))) \<and>
         (0 \<le> n \<longrightarrow>
           (let s = foldl (AddArticles srt) NewArticleStore batches
            in \<exists>r. GetRecent s n = Inr r \<and>
                   int (length r) = min n (int (length (sorted_slice s))) \<and>
                   ((\<forall>a\<in>set (concat batches). Published a \<noteq> None) \<longrightarrow> recent_first r)))"
proof -
  have A: "recent_first (GetRecent_api (foldl (AddArticles_api srt) NewArticleStore_api batches) n)"
    using api_reachable_ordered[OF assms(2), of batches]
    by (simp add: GetRecent_api_take recent_first_take)
  have B: "(\<forall>a\<in>set (concat batches). Published a \<noteq> None) \<longrightarrow>
           recent_first (take (nat n) (sorted_slice (foldl (AddArticles srt) NewArticleStore batches)))"
    using gonews_reachable_ordered[OF assms, of batches] recent_first_take by blast
  show ?thesis
    using A B by (auto simp: Let_def GetRecent_api_length GetRecent_nonneg)
qed

lemma recent_order_and_length_example:
  "sort_permutes (insertionSortCmpFunc :: Article sortfn) \<and>
   sort_orders (insertionSortCmpFunc :: Article sortfn) \<and>
   (0::int) \<le> 2 \<and>
   list_all (\<lambda>a. Published a \<noteq> None) (concat dated_batches) \<and>
   recent_first (GetRecent_api
     (foldl (AddArticles_api insertionSortCmpFunc) NewArticleStore_api dated_batches) 2) \<and>
   int (length (GetRecent_api
     (foldl (AddArticles_api insertionSortCmpFunc) NewArticleStore_api dated_batches) 2)) =
     min (max 2 0) (int (length (articles
       (foldl (AddArticles_api insertionSortCmpFunc) NewArticleStore_api dated_batches)))) \<and>
   (\<exists>r. GetRecent (foldl (AddArticles insertionSortCmpFunc) NewArticleStore dated_batches) 2
          = Inr r \<and>
        int (length r) = min 2 (int (length (sorted_slice
          (foldl (AddArticles insertionSortCmpFunc) NewArticleStore dated_batches)))) \<and>
        recent_first r)"
proof -
  have P: "sort_permutes (insertionSortCmpFunc :: Article sortfn)"
    by (rule sort_permutes_insertion)
  have O: "sort_orders (insertionSortCmpFunc :: Article sortfn)"
    by (rule sort_orders_insertion)
  have D: "\<forall>a\<in>set (concat dated_batches). Published a \<noteq> None"
    by (simp add: dated_batches_def art_def)
  have N: "(0::int) \<le> 2" by simp
  from recent_order_and_length[OF P O, of dated_batches 2] P O D N
  show ?thesis unfolding Let_def list_all_iff by blast
qed

text \<open>
  C2, the failing input: the go-news store receives, in one batch, an article of time 5,
  an undated article and an article of time 10. Its comparator answers 0 as soon as one
  of the two dates is nil, so the undated article separates its neighbours and nothing
  moves (on a three-element slice \<open>slices.SortFunc\<close> is the insertion sort).
  \<open>GetRecent 3\<close> returns the three in arrival order: the older article before the newer
  one, the undated one between them.
\<close>

theorem gonews_store_unordered:
  "GetRecent (foldl (AddArticles insertionSortCmpFunc) NewArticleStore
       [[art ''a'' (Some 5), art ''c'' None, art ''b'' (Some 10)]]) 3
   = Inr [art ''a'' (Some 5), art ''c'' None, art ''b'' (Some 10)] \<and>
   \<not> recent_first [art ''a'' (Some 5), art ''c'' None, art ''b'' (Some 10)]"
  by (simp add: AddArticles_def NewArticleStore_def insertionSortCmpFunc_def GetRecent_def
      cmp_published_def time_Compare_def art_def recent_first_def newer_first_def)

text \<open>The chapter11/api store puts the same batch in order.\<close>

lemma api_order_example:
  "GetRecent_api (foldl (AddArticles_api insertionSortCmpFunc) NewArticleStore_api
       [[art ''a'' (Some 5), art ''c'' None, art ''b'' (Some 10)]]) 3
   = [art ''b'' (Some 10), art ''a'' (Some 5), art ''c'' None]"
  by (simp add: AddArticles_api_def NewArticleStore_api_def insertionSortCmpFunc_def
      cmp_api_def time_After_def time_Before_def art_def GetRecent_api_def)

text \<open>
  \<open>GetRecent\<close> of the chapter11/api store returns for every \<open>n\<close>: the empty list for
  \<open>n \<le> 0\<close>, everything for \<open>n\<close> above the count.
\<close>

lemma GetRecent_api_total:
  "(n \<le> 0 \<longrightarrow> GetRecent_api s n = []) \<and>
   (int (length (articles s)) < n \<longrightarrow> GetRecent_api s n = articles s)"
  by (auto simp: GetRecent_api_take)

text \<open>
  C5, the failing input: in the go-news store \<open>GetRecent (- 1)\<close> evaluates the slice
  expression \<open>s.sorted[:-1]\<close> and panics, whatever the store holds.
\<close>

theorem gonews_GetRecent_negative_panics:
  "GetRecent s (- 1) = Inl (SliceBoundsOutOfRange (- 1))"
  by (simp add: GetRecent_def)

section \<open>Batch insertion against repeated single insertion\<close>

lemma foldl_AddArticle_batches:
  "foldl (AddArticle srt) s as = foldl (AddArticles srt) s (map (\<lambda>a. [a]) as)"
  by (induction as arbitrary: s) (simp_all add: AddArticle_as_batch)

lemma concat_singletons: "concat (map (\<lambda>a. [a]) as) = as"
  by (induction as) simp_all

lemma each_mset_cache:
  assumes "sort_permutes srt"
  shows "mset (sorted_slice (foldl (AddArticle srt) s as)) =
           mset (sorted_slice s) + mset (fresh_from (cache s) as) \<and>
         cache (foldl (AddArticle srt) s as) = cache s \<union> Link ` set as"
  using foldl_AddArticles[OF assms, of s "map (\<lambda>a. [a]) as"]
  by (simp add: foldl_AddArticle_batches concat_singletons)

lemma AddArticle_cache: "cache (AddArticle srt s a) = insert (Link a) (cache s)"
  by (auto simp: AddArticle_def)

lemma length_fresh_from: "length (fresh_from seen as) = card (Link ` set as - seen)"
proof -
  have "length (fresh_from seen as) = length (map Link (fresh_from seen as))" by simp
  also have "\<dots> = card (set (map Link (fresh_from seen as)))"
    using distinct_card[OF fresh_from_distinct[of seen as]] by simp
  also have "\<dots> = card (Link ` set as - seen)" by (simp add: fresh_from_links)
  finally show ?thesis .
qed

lemma insertion_loop_fold: "insertion_loop cmp rs xs = rev (fold (sift cmp) xs rs)"
  by (induction xs arbitrary: rs) simp_all

lemma fold_sift_settled:
  "successively (\<lambda>a b. \<not> cmp a b < 0) (rev xs @ acc) \<Longrightarrow> fold (sift cmp) xs acc = rev xs @ acc"
proof (induction xs arbitrary: acc)
  case Nil
  then show ?case by simp
next
  case (Cons x xs)
  have S: "successively (\<lambda>a b. \<not> cmp a b < 0) (rev xs @ x # acc)" using Cons.prems by simp
  then have "successively (\<lambda>a b. \<not> cmp a b < 0) (x # acc)"
    by (simp add: successively_append_iff)
  then have "sift cmp x acc = x # acc" by (cases acc) simp_all
  then show ?case using Cons.IH[OF S] by simp
qed

lemma sift_settled:
  assumes asym: "\<And>a b. cmp a b < 0 \<Longrightarrow> \<not> cmp b a < 0"
  shows "successively (\<lambda>a b. \<not> cmp a b < 0) rs \<Longrightarrow>
         successively (\<lambda>a b. \<not> cmp a b < 0) (sift cmp x rs)"
proof (induction rs)
  case Nil
  then show ?case by simp
next
  case (Cons y rs)
  show ?case
  proof (cases "cmp x y < 0")
    case True
    have IH: "successively (\<lambda>a b. \<not> cmp a b < 0) (sift cmp x rs)"
      using Cons by (cases rs) simp_all
    show ?thesis
    proof (cases rs)
      case Nil
      then show ?thesis using True asym by simp
    next
      case (Cons z rs')
      then show ?thesis using True IH asym Cons.prems by (auto simp: Cons)
    qed
  next
    case False
    then show ?thesis using Cons.prems by simp
  qed
qed

lemma fold_sift_settled_result:
  assumes asym: "\<And>a b. cmp a b < 0 \<Longrightarrow> \<not> cmp b a < 0"
  shows "successively (\<lambda>a b. \<not> cmp a b < 0) acc \<Longrightarrow>
         successively (\<lambda>a b. \<not> cmp a b < 0) (fold (sift cmp) xs acc)"
  by (induction xs arbitrary: acc) (simp_all add: sift_settled[OF asym])

lemma cmp_published_asym: "cmp_published a b < 0 \<Longrightarrow> \<not> cmp_published b a < 0"
  unfolding cmp_published_def time_Compare_def by (auto split: option.splits if_splits)

lemma isort_settled: "settled (insertionSortCmpFunc cmp_published xs)"
  unfolding settled_def insertionSortCmpFunc_def insertion_loop_fold
  using fold_sift_settled_result[of cmp_published "[]" xs] cmp_published_asym by auto

lemma isort_append_settled:
  "settled xs \<Longrightarrow> insertionSortCmpFunc cmp_published (xs @ ys) = rev (fold (sift cmp_published) ys (rev xs))"
  unfolding settled_def insertionSortCmpFunc_def insertion_loop_fold
  using fold_sift_settled[of cmp_published xs "[]"] by simp

lemma loop_state:
  "fst (AddArticles_loop s d as) =
     s\<lparr>cache := cache s \<union> Link ` set as, sorted_slice := sorted_slice s @ fresh_from (cache s) as\<rparr>"
  by (induction as arbitrary: s d) (auto simp: insert_absorb)

lemma AddArticles_state:
  "AddArticles srt s as =
     s\<lparr>cache := cache s \<union> Link ` set as,
        sorted_slice := (if fresh_from (cache s) as = [] then sorted_slice s
                         else srt cmp_published (sorted_slice s @ fresh_from (cache s) as))\<rparr>"
proof -
  obtain s' d where L: "AddArticles_loop s False as = (s', d)"
    by (cases "AddArticles_loop s False as")
  have "s' = s\<lparr>cache := cache s \<union> Link ` set as, sorted_slice := sorted_slice s @ fresh_from (cache s) as\<rparr>"
    and "d = (fresh_from (cache s) as \<noteq> [])"
    using loop_state[of s False as] loop_dirty[of s False as] L by simp_all
  then show ?thesis using L by (simp add: AddArticles_def)
qed

lemma each_state_insertion:
  "settled (sorted_slice s) \<Longrightarrow>
   foldl (AddArticle insertionSortCmpFunc) s as =
     s\<lparr>cache := cache s \<union> Link ` set as,
        sorted_slice := rev (fold (sift cmp_published) (fresh_from (cache s) as) (rev (sorted_slice s)))\<rparr>"
proof (induction as arbitrary: s)
  case Nil
  then show ?case by simp
next
  case (Cons a as)
  show ?case
  proof (cases "Link a \<in> cache s")
    case True
    then have "AddArticle insertionSortCmpFunc s a = s" by (simp add: AddArticle_def)
    then show ?thesis using Cons True by (simp add: insert_absorb)
  next
    case False
    define s1 where "s1 = AddArticle insertionSortCmpFunc s a"
    have s1: "s1 = s\<lparr>cache := insert (Link a) (cache s),
                     sorted_slice := rev (sift cmp_published a (rev (sorted_slice s)))\<rparr>"
      using False isort_append_settled[OF Cons.prems, of "[a]"] by (simp add: s1_def AddArticle_def)
    have "settled (sorted_slice s1)"
      using False isort_settled by (simp add: s1_def AddArticle_def)
    from Cons.IH[OF this] show ?thesis using False s1 by (simp add: s1_def[symmetric])
  qed
qed

lemma batch_equals_each_insertion:
  assumes "settled (sorted_slice s)"
  shows "AddArticles insertionSortCmpFunc s as = foldl (AddArticle insertionSortCmpFunc) s as"
proof (cases "fresh_from (cache s) as = []")
  case True
  then show ?thesis using each_state_insertion[OF assms, of as] by (simp add: AddArticles_state)
next
  case False
  then show ?thesis
    using each_state_insertion[OF assms, of as] isort_append_settled[OF assms]
    by (simp add: AddArticles_state)
qed

lemma reachable_settled:
  "settled (sorted_slice s) \<Longrightarrow> settled (sorted_slice (foldl (AddArticles insertionSortCmpFunc) s bs))"
  by (induction bs arbitrary: s) (simp_all add: AddArticles_slice isort_settled)

lemma each_slice:
  "sorted_slice (foldl (AddArticle srt) s new) =
     foldl (\<lambda>xs a. srt cmp_published (xs @ [a])) (sorted_slice s) (fresh_from (cache s) new)"
proof (induction new arbitrary: s)
  case Nil
  show ?case by simp
next
  case (Cons a as)
  show ?case
  proof (cases "Link a \<in> cache s")
    case True
    then have "AddArticle srt s a = s" by (simp add: AddArticle_def)
    then show ?thesis using Cons[of s] True by simp
  next
    case False
    define s1 where "s1 = AddArticle srt s a"
    have c: "cache s1 = insert (Link a) (cache s)"
      and l: "sorted_slice s1 = srt cmp_published (sorted_slice s @ [a])"
      using False by (simp_all add: s1_def AddArticle_def)
    show ?thesis using Cons[of s1] False c l by (simp add: s1_def[symmetric])
  qed
qed

lemma length_marked_each:
  "length (foldl (\<lambda>xs a. marking_sort m cmp (xs @ [a])) xs0 fresh) = length xs0 + 2 * length fresh"
  by (induction fresh arbitrary: xs0) (simp_all add: marking_sort_def)

lemma length_plain_each:
  "length (foldl (\<lambda>xs a. xs @ [a]) xs0 fresh) = length xs0 + length fresh"
  by (induction fresh arbitrary: xs0) simp_all

lemma sort_passes_batch:
  "sort_passes m (\<lambda>f. AddArticles f s new) = (if fresh_from (cache s) new = [] then 0 else 1)"
  by (simp add: sort_passes_def AddArticles_slice marking_sort_def)

lemma sort_passes_each:
  "sort_passes m (\<lambda>f. foldl (AddArticle f) s new) = length (fresh_from (cache s) new)"
  by (simp add: sort_passes_def each_slice length_marked_each length_plain_each)

lemma fresh_from_Nil_iff: "(fresh_from seen as = []) = (Link ` set as \<subseteq> seen)"
  using fresh_from_links[of seen as] by (cases "fresh_from seen as") auto

text \<open>
  C9. For every go-news store state and every batch, \<open>AddArticles\<close> and one
  \<open>AddArticle\<close> per element in order end with the same cache and the same stored
  articles (as a multiset). The batch insert hands the old slice followed by the new
  articles to the sort once, with the comparator of the store, and does not sort when
  nothing is new; the single inserts sort after each new article with the same
  comparator. Measured on the operations themselves the batch insert makes one sort pass
  (none when nothing is new) and the single inserts one per new link. Both slices are in
  recent-first order whenever the sort orders, the store was in that order and all
  articles are dated; and on a slice short enough for the library to sort it by
  insertion (twelve elements), with the store settled as that sort leaves it, the two
  stores are equal, undated articles included.
\<close>

theorem batch_refines_each:
  assumes "sort_permutes srt"
  shows "let batched = AddArticles srt s new;
             single = foldl (AddArticle srt) s new;
             fresh = fresh_from (cache s) new
         in cache batched = cache single \<and>
            mset (sorted_slice batched) = mset (sorted_slice single) \<and>
            sorted_slice batched =
              (if fresh = [] then sorted_slice s
               else srt cmp_published (sorted_slice s @ fresh)) \<and>
            sorted_slice single =
              foldl (\<lambda>xs a. srt cmp_published (xs @ [a])) (sorted_slice s) fresh \<and>
            length fresh = card (Link ` set new - cache s) \<and>
            sort_passes m (\<lambda>f. AddArticles f s new) = (if fresh = [] then 0 else 1) \<and>
            sort_passes m (\<lambda>f. AddArticles f s new) \<le> 1 \<and>
            sort_passes m (\<lambda>f. foldl (AddArticle f) s new) = length fresh \<and>
            (sort_orders srt \<and> recent_first (sorted_slice s) \<and>
             (\<forall>a\<in>set (sorted_slice s) \<union> set new. Published a \<noteq> None) \<longrightarrow>
               recent_first (sorted_slice batched) \<and> recent_first (sorted_slice single)) \<and>
            (settled (sorted_slice s) \<and> length (sorted_slice s) + length new \<le> 12 \<longrightarrow>
               AddArticles insertionSortCmpFunc s new =
               foldl (AddArticle insertionSortCmpFunc) s new)"
proof -
  have C: "cache (AddArticles srt s new) = cache (foldl (AddArticle srt) s new)"
    using each_mset_cache[OF assms, of s new] by (simp add: AddArticles_cache)
  have M: "mset (sorted_slice (AddArticles srt s new)) =
           mset (sorted_slice (foldl (AddArticle srt) s new))"
    using each_mset_cache[OF assms, of s new] by (simp add: AddArticles_mset[OF assms])
  have P1: "sort_passes m (\<lambda>f. AddArticles f s new) \<le> 1" by (simp add: sort_passes_batch)
  have O: "recent_first (sorted_slice (AddArticles srt s new)) \<and>
           recent_first (sorted_slice (foldl (AddArticle srt) s new))"
    if "sort_orders srt" "recent_first (sorted_slice s)"
      "\<forall>a\<in>set (sorted_slice s) \<union> set new. Published a \<noteq> None"
  proof
    show "recent_first (sorted_slice (AddArticles srt s new))"
      using gonews_step_ordered[OF assms that(1,2), of new] that(3) by blast
    show "recent_first (sorted_slice (foldl (AddArticle srt) s new))"
      using gonews_foldl_ordered[OF assms that(1,2), of "map (\<lambda>a. [a]) new"] that(3)
      by (simp add: foldl_AddArticle_batches concat_singletons)
  qed
  have E: "AddArticles insertionSortCmpFunc s new = foldl (AddArticle insertionSortCmpFunc) s new"
    if "settled (sorted_slice s)"
    using batch_equals_each_insertion[OF that] .
  show ?thesis
    unfolding Let_def
    using C M P1 O E AddArticles_slice[of srt s new] each_slice[of srt s new]
      length_fresh_from[of "cache s" new] sort_passes_batch[of m s new]
      sort_passes_each[of m s new]
    by blast
qed

theorem batch_refines_each_witness:
  "sort_permutes (insertionSortCmpFunc :: Article sortfn) \<and>
   sort_orders (insertionSortCmpFunc :: Article sortfn) \<and>
   recent_first (sorted_slice one_store) \<and>
   list_all (\<lambda>a. Published a \<noteq> None) (sorted_slice one_store @ next_batch) \<and>
   settled (sorted_slice one_store) \<and>
   length (sorted_slice one_store) + length next_batch \<le> 12 \<and>
   cache (AddArticles insertionSortCmpFunc one_store next_batch) =
     cache (foldl (AddArticle insertionSortCmpFunc) one_store next_batch) \<and>
   mset (sorted_slice (AddArticles insertionSortCmpFunc one_store next_batch)) =
     mset (sorted_slice (foldl (AddArticle insertionSortCmpFunc) one_store next_batch)) \<and>
   sort_passes (art [] None) (\<lambda>f. AddArticles f one_store next_batch) \<le> 1 \<and>
   sort_passes (art [] None) (\<lambda>f. foldl (AddArticle f) one_store next_batch) =
     card (Link ` set next_batch - cache one_store) \<and>
   recent_first (sorted_slice (AddArticles insertionSortCmpFunc one_store next_batch)) \<and>
   recent_first (sorted_slice (foldl (AddArticle insertionSortCmpFunc) one_store next_batch)) \<and>
   AddArticles insertionSortCmpFunc one_store next_batch =
     foldl (AddArticle insertionSortCmpFunc) one_store next_batch"
proof -
  have P: "sort_permutes (insertionSortCmpFunc :: Article sortfn)"
    by (rule sort_permutes_insertion)
  have O: "sort_orders (insertionSortCmpFunc :: Article sortfn)"
    by (rule sort_orders_insertion)
  have R: "recent_first (sorted_slice one_store)"
    by (simp add: one_store_def recent_first_def)
  have D: "\<forall>a\<in>set (sorted_slice one_store) \<union> set next_batch. Published a \<noteq> None"
    by (simp add: one_store_def next_batch_def art_def)
  have D': "list_all (\<lambda>a. Published a \<noteq> None) (sorted_slice one_store @ next_batch)"
    using D by (simp add: list_all_iff)
  have S: "settled (sorted_slice one_store)"
    by (simp add: one_store_def settled_def)
  have L: "length (sorted_slice one_store) + length next_batch \<le> 12"
    by (simp add: one_store_def next_batch_def)
  from batch_refines_each[OF P, of one_store next_batch "art [] None"] P O R D D' S L
  show ?thesis unfolding Let_def by metis
qed

text \<open>
  A batch with an undated article and a known link: both ways of inserting give the same
  store, the batch insert in one sort pass and the single inserts in three.
\<close>

lemma mixed_batch_example:
  "AddArticles insertionSortCmpFunc one_store mixed_batch =
     foldl (AddArticle insertionSortCmpFunc) one_store mixed_batch \<and>
   map Link (sorted_slice (AddArticles insertionSortCmpFunc one_store mixed_batch)) =
     [''b'', ''a'', ''u'', ''c''] \<and>
   sort_passes (art [] None) (\<lambda>f. AddArticles f one_store mixed_batch) = 1 \<and>
   sort_passes (art [] None) (\<lambda>f. foldl (AddArticle f) one_store mixed_batch) = 3"
  by (simp add: AddArticles_def AddArticle_def one_store_def mixed_batch_def art_def
      insertionSortCmpFunc_def cmp_published_def time_Compare_def sort_passes_def
      marking_sort_def)

section \<open>The worker pool after \<open>Stop\<close>\<close>

lemma pool_after_closed:
  "closed (incomingFeeds wp) \<Longrightarrow> closed (incomingFeeds (pool_after wp ev))"
  by (cases ev)
     (auto simp: pool_after_def Submit_def Stop_def worker_receive_def send_def close_chan_def
        recv_def split: list.splits)

lemma foldl_pool_after_closed:
  "closed (incomingFeeds wp) \<Longrightarrow> closed (incomingFeeds (foldl pool_after wp evs))"
  by (induction evs arbitrary: wp) (simp_all add: pool_after_closed)

lemma Stop_closes: "Stop wp = Inr wp' \<Longrightarrow> closed (incomingFeeds wp')"
  by (auto simp: Stop_def close_chan_def split: if_splits)

lemma Submit_closed: "closed (incomingFeeds wp) \<Longrightarrow> Submit wp url = Panics SendOnClosedChannel"
  by (simp add: Submit_def send_def)

text \<open>
  C6. Once \<open>Stop\<close> has returned on a pool, every later call of \<open>Submit\<close> panics with
  "send on closed channel", whatever happened to the pool in between (further calls,
  workers draining the queue) and however full the queue is: it never blocks.
\<close>

theorem Submit_after_Stop_panics:
  assumes "Stop wp = Inr wp'"
  shows "Submit (foldl pool_after wp' evs) url = Panics SendOnClosedChannel"
  using assms by (simp add: Stop_closes foldl_pool_after_closed Submit_closed)

theorem Submit_after_Stop_panics_witness:
  "Stop (NewWorkerPool () 3) =
     Inr ((NewWorkerPool () 3)\<lparr>incomingFeeds := \<lparr>buf = [], capacity = 100, closed = True\<rparr>\<rparr>) \<and>
   Submit (foldl pool_after
       ((NewWorkerPool () 3)\<lparr>incomingFeeds := \<lparr>buf = [], capacity = 100, closed = True\<rparr>\<rparr>)
       [WorkerReceives, CallSubmit ''late'', CallStop]) ''https://example.com/rss''
     = Panics SendOnClosedChannel"
proof -
  have S: "Stop (NewWorkerPool () 3) =
     Inr ((NewWorkerPool () 3)\<lparr>incomingFeeds := \<lparr>buf = [], capacity = 100, closed = True\<rparr>\<rparr>)"
    by (simp add: Stop_def close_chan_def NewWorkerPool_def make_chan_def)
  from S Submit_after_Stop_panics[OF S] show ?thesis by (rule conjI)
qed

section \<open>The capacity of the job queue\<close>

lemma submit_all_room:
  "\<not> closed (incomingFeeds wp) \<Longrightarrow>
   length (buf (incomingFeeds wp)) + length urls \<le> capacity (incomingFeeds wp) \<Longrightarrow>
   submit_all wp urls =
     Done (wp\<lparr>incomingFeeds := (incomingFeeds wp)\<lparr>buf := buf (incomingFeeds wp) @ urls\<rparr>\<rparr>)"
proof (induction urls arbitrary: wp)
  case Nil
  then show ?case by simp
next
  case (Cons u urls)
  define wp1 where
    "wp1 = wp\<lparr>incomingFeeds := (incomingFeeds wp)\<lparr>buf := buf (incomingFeeds wp) @ [u]\<rparr>\<rparr>"
  have S: "Submit wp u = Done wp1"
    using Cons.prems by (simp add: Submit_def send_def wp1_def)
  have "submit_all wp1 urls =
        Done (wp1\<lparr>incomingFeeds := (incomingFeeds wp1)\<lparr>buf := buf (incomingFeeds wp1) @ urls\<rparr>\<rparr>)"
    using Cons.prems by (intro Cons.IH) (simp_all add: wp1_def)
  then show ?case using S by (simp add: wp1_def)
qed

lemma submit_all_snoc:
  "submit_all wp urls = Done wp' \<Longrightarrow> submit_all wp (urls @ [u]) = Submit wp' u"
  by (induction urls arbitrary: wp) (auto split: outcome.splits)

text \<open>
  C10. Whatever the processor and the worker count, the job channel of a new pool has
  capacity 100; with no worker taking a job, any 100 or fewer \<open>Submit\<close> calls all return
  and leave their URLs queued in order, and a 101st call blocks.
\<close>

theorem queue_capacity_100:
  "capacity (incomingFeeds (NewWorkerPool p workerCount)) = 100 \<and>
   (length urls \<le> 100 \<longrightarrow>
      submit_all (NewWorkerPool p workerCount) urls =
        Done ((NewWorkerPool p workerCount)
               \<lparr>incomingFeeds := \<lparr>buf = urls, capacity = 100, closed = False\<rparr>\<rparr>)) \<and>
   (length urls = 100 \<longrightarrow> submit_all (NewWorkerPool p workerCount) (urls @ [url]) = Blocks)"
proof -
  let ?wp = "NewWorkerPool p workerCount"
  have A: "submit_all ?wp urls =
           Done (?wp\<lparr>incomingFeeds := \<lparr>buf = urls, capacity = 100, closed = False\<rparr>\<rparr>)"
    if "length urls \<le> 100"
    using submit_all_room[of ?wp urls] that by (simp add: NewWorkerPool_def make_chan_def)
  have B: "submit_all ?wp (urls @ [url]) = Blocks" if "length urls = 100"
    using submit_all_snoc[OF A] that by (simp add: Submit_def send_def)
  show ?thesis using A B by (simp add: NewWorkerPool_def make_chan_def)
qed

theorem queue_capacity_100_witness:
  "length (replicate 100 ''u'') \<le> 100 \<and> length (replicate 100 ''u'') = 100 \<and>
   capacity (incomingFeeds (NewWorkerPool () 0)) = 100 \<and>
   submit_all (NewWorkerPool () 0) (replicate 100 ''u'') =
     Done ((NewWorkerPool () 0)
            \<lparr>incomingFeeds := \<lparr>buf = replicate 100 ''u'', capacity = 100, closed = False\<rparr>\<rparr>) \<and>
   submit_all (NewWorkerPool () 0) (replicate 100 ''u'' @ [''v'']) = Blocks"
  using queue_capacity_100[of "()" 0 "replicate 100 ''u''" "''v''"] by simp

section \<open>The dispatch loop after \<open>Close\<close>\<close>

lemma run_iteration_never_returns: "run_iteration pick a \<noteq> Returned a'"
  by (auto simp: run_iteration_def case_feed_def case_err_def
      split: option.splits outcome.splits)

lemma run_never_returns: "run picks a \<noteq> Returned a'"
proof (induction picks arbitrary: a)
  case Nil
  show ?case by simp
next
  case (Cons p ps)
  show ?case using Cons.IH run_iteration_never_returns[of p a]
    by (cases "run_iteration p a") auto
qed

lemma run_append:
  "run (ps @ qs) a = (case run ps a of Continue a' \<Rightarrow> run qs a' | other \<Rightarrow> other)"
  by (induction ps arbitrary: a) (auto split: loop_outcome.splits)

lemma closed_app_err_case:
  "run_iteration False (closed_app\<lparr>console := cs\<rparr>) =
     Continue (closed_app\<lparr>console := cs @ [''error: <nil>'']\<rparr>)"
  by (simp add: closed_app_def run_iteration_def recv_def case_err_def zero_or_def
      Println_error_def)

lemma closed_app_feed_case:
  "run_iteration True (closed_app\<lparr>console := cs\<rparr>) = Panicked SendOnClosedChannel"
  by (simp add: closed_app_def run_iteration_def recv_def case_feed_def zero_or_def
      Submit_def send_def)

lemma closed_app_spins:
  "run (replicate k False) (closed_app\<lparr>console := cs\<rparr>) =
     Continue (closed_app\<lparr>console := cs @ replicate k ''error: <nil>''\<rparr>)"
proof (induction k arbitrary: cs)
  case 0
  show ?case by simp
next
  case (Suc k)
  show ?case
    using Suc.IH[of "cs @ [''error: <nil>'']"]
    by (simp add: closed_app_err_case replicate_app_Cons_same)
qed

text \<open>
  C7, the failing input: a fresh application on which \<open>Close\<close> has run, so that both
  input channels of the loop (and the job channel) are closed. The loop does not stop:
  as long as the runtime picks the error case it prints "error: <nil>" and goes on, in
  the same state; the first time it picks the feed case it submits the empty URL to the
  stopped pool and panics. No schedule makes it return.
\<close>

theorem run_after_Close:
  "Close NewApp = Inr closed_app \<and>
   run (replicate k False) closed_app =
     Continue (closed_app\<lparr>console := replicate k ''error: <nil>''\<rparr>) \<and>
   run (replicate k False @ True # picks) closed_app = Panicked SendOnClosedChannel \<and>
   (\<forall>picks a'. run picks closed_app \<noteq> Returned a')"
proof -
  have C: "Close NewApp = Inr closed_app"
    by (simp add: Close_def NewApp_def closed_app_def close_chan_def make_chan_def Stop_def
        NewWorkerPool_def eval_nat_numeral)
  have E: "closed_app\<lparr>console := []\<rparr> = closed_app" by (simp add: closed_app_def)
  have S: "run (replicate k False) closed_app =
           Continue (closed_app\<lparr>console := replicate k ''error: <nil>''\<rparr>)"
    using closed_app_spins[of k "[]"] by (simp add: E)
  have P: "run (replicate k False @ True # picks) closed_app = Panicked SendOnClosedChannel"
    by (simp add: run_append S closed_app_feed_case)
  show ?thesis using C S P run_never_returns by blast
qed

section \<open>Every result is collected exactly once\<close>

lemma error_strings_append: "error_strings (xs @ ys) = error_strings xs @ error_strings ys"
  by (simp add: error_strings_def)

lemma fetched_append: "fetched (xs @ ys) = fetched xs @ fetched ys"
  by (simp add: fetched_def)

lemma error_strings_Cons: "error_strings (r # rs) = (case res_err r of Some e \<Rightarrow> [Error e] | None \<Rightarrow> []) @ error_strings rs"
  by (simp add: error_strings_def)

lemma fetched_Cons:
  "fetched (r # rs) = (case res_err r of Some e \<Rightarrow> [] | None \<Rightarrow> res_articles r) @ fetched rs"
  by (simp add: fetched_def)

lemma sync_inv_init: "sync_inv fetch urls (sync_init urls)"
  by (simp add: sync_inv_def sync_init_def make_chan_def)

lemma mset_remove_nth:
  assumes H: "\<And>a b. g (a @ b) = g a @ g b" and i: "i < length xs"
  shows "mset (g (take i xs @ drop (Suc i) xs)) + mset (g [xs ! i]) = mset (g xs)"
proof -
  have "xs = take i xs @ [xs ! i] @ drop (Suc i) xs"
    using i by (simp add: id_take_nth_drop)
  then have "g xs = g (take i xs) @ g [xs ! i] @ g (drop (Suc i) xs)"
    by (metis H)
  moreover have "g (take i xs @ drop (Suc i) xs) = g (take i xs) @ g (drop (Suc i) xs)"
    by (rule H)
  ultimately show ?thesis by simp
qed

lemma mset_shift:
  fixes E :: "'x multiset"
  shows "E + (Q + N) = T \<Longrightarrow> R + S = N \<Longrightarrow> E + ((Q + S) + R) = T"
  by (auto simp: ac_simps)

lemma sync_inv_parts:
  "sync_inv fetch urls st =
     (mset (errors st) + (mset (error_strings (buf (resultsChan st))) + mset (error_strings (map fetch (running st))))
        = mset (error_strings (map fetch urls)) \<and>
      mset (gathered st) + (mset (fetched (buf (resultsChan st))) + mset (fetched (map fetch (running st))))
        = mset (fetched (map fetch urls)) \<and>
      (closed (resultsChan st) \<longrightarrow> running st = []) \<and>
      capacity (resultsChan st) = length urls \<and>
      length (buf (resultsChan st)) + length (running st) \<le> length urls)"
  by (simp only: sync_inv_def error_strings_append fetched_append mset_append)

lemma sync_step_inv:
  assumes "sync_inv fetch urls st" "sync_step fetch st ev = Some st'"
  shows "sync_inv fetch urls st' \<and> Suc (sync_measure st') = sync_measure st"
proof -
  from assms(1) have
    I1: "mset (errors st) + (mset (error_strings (buf (resultsChan st))) + mset (error_strings (map fetch (running st))))
          = mset (error_strings (map fetch urls))" and
    I2: "mset (gathered st) + (mset (fetched (buf (resultsChan st))) + mset (fetched (map fetch (running st))))
          = mset (fetched (map fetch urls))" and
    I3: "closed (resultsChan st) \<longrightarrow> running st = []" and
    I4: "capacity (resultsChan st) = length urls" and
    I5: "length (buf (resultsChan st)) + length (running st) \<le> length urls"
    unfolding sync_inv_parts by blast+
  show ?thesis
  proof (cases ev)
    case (Finishes i)
    from assms(2) Finishes have i: "i < length (running st)"
      by (auto simp: sync_step_def split: if_splits)
    define r where "r = fetch (running st ! i)"
    define rest where "rest = take i (running st) @ drop (Suc i) (running st)"
    from assms(2) Finishes i have nc: "\<not> closed (resultsChan st)"
      and st': "st' = st\<lparr>running := rest,
                  resultsChan := (resultsChan st)\<lparr>buf := buf (resultsChan st) @ [r]\<rparr>\<rparr>"
      by (auto simp: sync_step_def send_def r_def rest_def split: if_splits)
    have mf: "map fetch rest = take i (map fetch (running st)) @ drop (Suc i) (map fetch (running st))"
      by (simp add: rest_def take_map drop_map)
    have ri: "r = map fetch (running st) ! i" using i by (simp add: r_def)
    have M: "mset (error_strings (map fetch rest)) + mset (error_strings [r]) = mset (error_strings (map fetch (running st)))"
      unfolding mf ri by (rule mset_remove_nth[OF error_strings_append]) (simp add: i)
    have B: "mset (fetched (map fetch rest)) + mset (fetched [r])
             = mset (fetched (map fetch (running st)))"
      unfolding mf ri by (rule mset_remove_nth[OF fetched_append]) (simp add: i)
    have L: "Suc (length rest) = length (running st)" using i by (auto simp: rest_def)
    have J1: "mset (errors st') + (mset (error_strings (buf (resultsChan st'))) + mset (error_strings (map fetch (running st'))))
          = mset (error_strings (map fetch urls))"
      using mset_shift[OF I1 M] by (simp add: st' error_strings_append)
    have J2: "mset (gathered st') + (mset (fetched (buf (resultsChan st'))) + mset (fetched (map fetch (running st'))))
          = mset (fetched (map fetch urls))"
      using mset_shift[OF I2 B] by (simp add: st' fetched_append)
    have J3: "closed (resultsChan st') \<longrightarrow> running st' = []" using nc by (simp add: st')
    have J4: "capacity (resultsChan st') = length urls" using I4 by (simp add: st')
    have J5: "length (buf (resultsChan st')) + length (running st') \<le> length urls"
      using I5 L by (simp add: st')
    have K: "Suc (sync_measure st') = sync_measure st"
      using L nc by (simp add: sync_measure_def st')
    show ?thesis unfolding sync_inv_parts using J1 J2 J3 J4 J5 K by blast
  next
    case ClosesResults
    from assms(2) ClosesResults have e: "running st = []" and nc: "\<not> closed (resultsChan st)"
      and st': "st' = st\<lparr>resultsChan := (resultsChan st)\<lparr>closed := True\<rparr>\<rparr>"
      by (auto simp: sync_step_def close_chan_def split: if_splits)
    have K: "Suc (sync_measure st') = sync_measure st"
      using nc by (simp add: sync_measure_def st')
    have "sync_inv fetch urls st'"
      unfolding sync_inv_parts using I1 I2 I4 I5 e by (simp add: st')
    with K show ?thesis by blast
  next
    case Collects
    from assms(2) Collects obtain r rs where b: "buf (resultsChan st) = r # rs"
      and st': "st' = collect (st\<lparr>resultsChan := (resultsChan st)\<lparr>buf := rs\<rparr>\<rparr>) r"
      by (auto simp: sync_step_def recv_def split: list.splits if_splits)
    have f: "running st' = running st" "buf (resultsChan st') = rs"
      "closed (resultsChan st') = closed (resultsChan st)"
      "capacity (resultsChan st') = capacity (resultsChan st)"
      by (simp_all add: st' collect_def split: option.splits)
    have K: "Suc (sync_measure st') = sync_measure st"
      by (simp add: sync_measure_def f b)
    have J1: "mset (errors st') + (mset (error_strings rs) + mset (error_strings (map fetch (running st))))
          = mset (error_strings (map fetch urls))"
      using I1 by (cases "res_err r") (simp_all add: b error_strings_Cons st' collect_def)
    have J2: "mset (gathered st') + (mset (fetched rs) + mset (fetched (map fetch (running st))))
          = mset (fetched (map fetch urls))"
      using I2 by (cases "res_err r") (simp_all add: b fetched_Cons st' collect_def add.assoc)
    have "sync_inv fetch urls st'"
      unfolding sync_inv_parts f using J1 J2 I3 I4 I5 by (simp add: b)
    with K show ?thesis by blast
  qed
qed

lemma sync_run_inv:
  "sync_inv fetch urls st \<Longrightarrow> sync_run fetch st evs = Some st' \<Longrightarrow>
   sync_inv fetch urls st' \<and> length evs + sync_measure st' = sync_measure st"
proof (induction evs arbitrary: st)
  case Nil
  then show ?case by simp
next
  case (Cons ev evs)
  from Cons.prems(2) obtain st1 where 1: "sync_step fetch st ev = Some st1"
    and 2: "sync_run fetch st1 evs = Some st'"
    by (auto split: option.splits)
  from sync_step_inv[OF Cons.prems(1) 1] Cons.IH[OF _ 2] show ?case by auto
qed

lemma sync_progress:
  assumes "sync_inv fetch urls st" "\<not> range_done st"
  shows "\<exists>ev st'. sync_step fetch st ev = Some st'"
proof (cases "buf (resultsChan st)")
  case (Cons r rs)
  then have "sync_step fetch st Collects \<noteq> None" by (simp add: sync_step_def recv_def)
  then show ?thesis by blast
next
  case Nil
  show ?thesis
  proof (cases "running st")
    case Nil2: Nil
    with Nil assms(2) have "sync_step fetch st ClosesResults \<noteq> None"
      by (simp add: sync_step_def range_done_def close_chan_def)
    then show ?thesis by blast
  next
    case (Cons u us)
    with assms(1) Nil have "sync_step fetch st (Finishes 0) \<noteq> None"
      by (auto simp: sync_step_def sync_inv_def send_def)
    then show ?thesis by blast
  qed
qed

lemma sync_measure_done: "sync_inv fetch urls st \<Longrightarrow> range_done st = (sync_measure st = 0)"
  by (auto simp: sync_inv_def range_done_def sync_measure_def)

lemma sync_completes:
  "sync_inv fetch urls st \<Longrightarrow> sync_measure st = n \<Longrightarrow>
   \<exists>evs st'. sync_run fetch st evs = Some st' \<and> range_done st'"
proof (induction n arbitrary: st)
  case 0
  then have "range_done st" by (simp add: sync_measure_done)
  then have "sync_run fetch st [] = Some st \<and> range_done st" by simp
  then show ?case by blast
next
  case (Suc n)
  then have "\<not> range_done st" by (simp add: sync_measure_done)
  from sync_progress[OF Suc.prems(1) this] obtain ev st1 where 1: "sync_step fetch st ev = Some st1"
    by blast
  from sync_step_inv[OF Suc.prems(1) 1] Suc.prems(2) have "sync_inv fetch urls st1" "sync_measure st1 = n"
    by auto
  from Suc.IH[OF this] obtain evs st' where "sync_run fetch st1 evs = Some st'" "range_done st'"
    by blast
  with 1 have "sync_run fetch st (ev # evs) = Some st' \<and> range_done st'" by simp
  then show ?case by blast
qed

lemma sync_done_totals:
  assumes "sync_run fetch (sync_init urls) sched = Some st" "range_done st"
  shows "mset (errors st) = mset (error_strings (map fetch urls))"
    and "mset (gathered st) = mset (fetched (map fetch urls))"
    and "length sched = 2 * length urls + 1"
proof -
  from sync_run_inv[OF sync_inv_init assms(1)]
  have I: "sync_inv fetch urls st" and L: "length sched + sync_measure st = sync_measure (sync_init urls :: 'a sync_state)"
    by auto
  have R: "running st = []" "buf (resultsChan st) = []"
    using I assms(2) by (auto simp: sync_inv_def range_done_def)
  show "mset (errors st) = mset (error_strings (map fetch urls))"
    and "mset (gathered st) = mset (fetched (map fetch urls))"
    using I R by (simp_all add: sync_inv_def error_strings_def fetched_def)
  have "sync_measure st = 0" using I assms(2) by (simp add: sync_measure_done)
  then show "length sched = 2 * length urls + 1"
    using L by (simp add: sync_measure_def sync_init_def make_chan_def)
qed

lemma fetched_map_fetch:
  "fetched (map fetch urls) = concat (map (\<lambda>u. res_articles (fetch u)) (filter (\<lambda>u. \<not> failed fetch u) urls))"
  by (induction urls) (auto simp: fetched_Cons failed_def fetched_def)

lemma SyncHandler_Some:
  "SyncHandler fetch urls sched = Some resp \<Longrightarrow>
   \<exists>st. sync_run fetch (sync_init urls) sched = Some st \<and> range_done st \<and> resp = respond st"
  by (auto simp: SyncHandler_def split: option.splits if_splits)

lemma respond_parts: "response_errors (respond st) = errors st \<and> response_articles (respond st) = gathered st"
  by (simp add: respond_def)

lemma error_strings_failure_message:
  "error_strings (map fetch urls) = map (failure_message fetch) (filter (failed fetch) urls)"
  by (induction urls) (auto simp: error_strings_Cons failed_def error_strings_def failure_message_def)

lemma SyncHandler_sample:
  "SyncHandler fetch_sample [''ok1'', ''bad'', ''ok2''] schedule_sample =
     Some (StatusPartialContent [art ''ok2'' (Some 1), art ''ok1'' (Some 1)] [''http error: 404 Not Found''])"
  by (simp add: SyncHandler_def sync_init_def make_chan_def schedule_sample_def sync_step_def
      send_def recv_def close_chan_def collect_def fetch_sample_def range_done_def respond_def)

lemma SyncHandler_404:
  "SyncHandler fetch_404 [u] [Finishes 0, ClosesResults, Collects] =
     Some (StatusPartialContent [] [''http error: 404 Not Found''])"
  by (simp add: SyncHandler_def sync_init_def make_chan_def sync_step_def
      send_def recv_def close_chan_def collect_def fetch_404_def range_done_def respond_def)

text \<open>
  Every order of completion is a run: the goroutines may send in any order, and the
  handler then reads the results in that order.
\<close>

lemma sync_run_append:
  "sync_run fetch st (xs @ ys) =
     (case sync_run fetch st xs of None \<Rightarrow> None | Some st' \<Rightarrow> sync_run fetch st' ys)"
  by (induction xs arbitrary: st) (auto split: option.splits)

lemma sending_phase:
  "mset order = mset (running st) \<Longrightarrow> \<not> closed (resultsChan st) \<Longrightarrow>
   length (buf (resultsChan st)) + length (running st) \<le> capacity (resultsChan st) \<Longrightarrow>
   \<exists>evs. sync_run fetch st evs =
     Some (st\<lparr>running := [],
              resultsChan := (resultsChan st)\<lparr>buf := buf (resultsChan st) @ map fetch order\<rparr>\<rparr>)"
proof (induction order arbitrary: st)
  case Nil
  then have "sync_run fetch st [] =
     Some (st\<lparr>running := [],
              resultsChan := (resultsChan st)\<lparr>buf := buf (resultsChan st) @ map fetch []\<rparr>\<rparr>)"
    by simp
  then show ?case by blast
next
  case (Cons u os)
  have "u \<in> set (running st)" using Cons.prems(1) by (metis list.set_intros(1) mset_eq_setD)
  then obtain i where i: "i < length (running st)" "running st ! i = u"
    by (auto simp: in_set_conv_nth)
  define st1 where "st1 = st\<lparr>running := take i (running st) @ drop (Suc i) (running st),
      resultsChan := (resultsChan st)\<lparr>buf := buf (resultsChan st) @ [fetch u]\<rparr>\<rparr>"
  have room: "length (buf (resultsChan st)) < capacity (resultsChan st)"
    using Cons.prems(3) i(1) by simp
  have S: "sync_step fetch st (Finishes i) = Some st1"
    using i room Cons.prems(2) by (simp add: sync_step_def send_def st1_def)
  have D: "running st = take i (running st) @ u # drop (Suc i) (running st)"
    using id_take_nth_drop[OF i(1)] i(2) by simp
  have "mset (running st) = mset (take i (running st) @ u # drop (Suc i) (running st))"
    by (rule arg_cong[where f = mset, OF D])
  also have "\<dots> = add_mset u (mset (running st1))" by (simp add: st1_def)
  finally have "mset (running st) = add_mset u (mset (running st1))" .
  then have M: "mset os = mset (running st1)" using Cons.prems(1) by simp
  have L: "Suc (length (running st1)) = length (running st)" using i by (auto simp: st1_def)
  have C: "\<not> closed (resultsChan st1)" using Cons.prems(2) by (simp add: st1_def)
  have R: "length (buf (resultsChan st1)) + length (running st1) \<le> capacity (resultsChan st1)"
    using Cons.prems(3) L by (simp add: st1_def)
  from Cons.IH[OF M C R] obtain evs where
    E: "sync_run fetch st1 evs =
        Some (st1\<lparr>running := [],
                  resultsChan := (resultsChan st1)\<lparr>buf := buf (resultsChan st1) @ map fetch os\<rparr>\<rparr>)"
    by blast
  have "sync_run fetch st (Finishes i # evs) =
     Some (st\<lparr>running := [],
              resultsChan := (resultsChan st)\<lparr>buf := buf (resultsChan st) @ map fetch (u # os)\<rparr>\<rparr>)"
    using S E by (simp add: st1_def)
  then show ?case by blast
qed

lemma collecting_phase:
  "buf (resultsChan st) = rs \<Longrightarrow>
   \<exists>st'. sync_run fetch st (replicate (length rs) Collects) = Some st' \<and>
         errors st' = errors st @ error_strings rs \<and>
         gathered st' = gathered st @ fetched rs \<and>
         buf (resultsChan st') = [] \<and> closed (resultsChan st') = closed (resultsChan st)"
proof (induction rs arbitrary: st)
  case Nil
  then show ?case by (simp add: error_strings_def fetched_def)
next
  case (Cons r rs)
  define st1 where "st1 = collect (st\<lparr>resultsChan := (resultsChan st)\<lparr>buf := rs\<rparr>\<rparr>) r"
  have S: "sync_step fetch st Collects = Some st1"
    using Cons.prems by (simp add: sync_step_def recv_def st1_def)
  have B: "buf (resultsChan st1) = rs" by (simp add: st1_def collect_def split: option.splits)
  from Cons.IH[OF B] obtain st' where
    R: "sync_run fetch st1 (replicate (length rs) Collects) = Some st'"
    and E: "errors st' = errors st1 @ error_strings rs"
    and G: "gathered st' = gathered st1 @ fetched rs"
    and D: "buf (resultsChan st') = []" "closed (resultsChan st') = closed (resultsChan st1)"
    by blast
  have E1: "errors st1 @ error_strings rs = errors st @ error_strings (r # rs)"
    by (simp add: st1_def collect_def error_strings_Cons split: option.splits)
  have G1: "gathered st1 @ fetched rs = gathered st @ fetched (r # rs)"
    by (simp add: st1_def collect_def fetched_Cons split: option.splits)
  have C1: "closed (resultsChan st1) = closed (resultsChan st)"
    by (simp add: st1_def collect_def split: option.splits)
  show ?case using S R E G D E1 G1 C1 by simp
qed

lemma any_completion_order:
  assumes "mset order = mset feedURLs"
  shows "\<exists>schedule resp. SyncHandler fetch feedURLs schedule = Some resp \<and>
           response_errors resp = error_strings (map fetch order) \<and>
           response_articles resp = fetched (map fetch order)"
proof -
  define st0 :: "'a sync_state" where "st0 = sync_init feedURLs"
  define st1 where "st1 = st0\<lparr>running := [],
      resultsChan := (resultsChan st0)\<lparr>buf := buf (resultsChan st0) @ map fetch order\<rparr>\<rparr>"
  obtain evs1 where 1: "sync_run fetch st0 evs1 = Some st1"
    using sending_phase[of order st0 fetch] assms
    by (auto simp: st0_def st1_def sync_init_def make_chan_def)
  define st2 where "st2 = st1\<lparr>resultsChan := (resultsChan st1)\<lparr>closed := True\<rparr>\<rparr>"
  have 2: "sync_step fetch st1 ClosesResults = Some st2"
    by (simp add: sync_step_def close_chan_def st1_def st2_def st0_def sync_init_def make_chan_def)
  have B: "buf (resultsChan st2) = map fetch order"
    by (simp add: st2_def st1_def st0_def sync_init_def make_chan_def)
  from collecting_phase[OF B, of fetch] obtain st3 where
    3: "sync_run fetch st2 (replicate (length (map fetch order)) Collects) = Some st3"
    and E: "errors st3 = errors st2 @ error_strings (map fetch order)"
    and G: "gathered st3 = gathered st2 @ fetched (map fetch order)"
    and D: "buf (resultsChan st3) = []" "closed (resultsChan st3) = closed (resultsChan st2)"
    by blast
  have R: "sync_run fetch st0 (evs1 @ ClosesResults # replicate (length (map fetch order)) Collects)
           = Some st3"
    using 1 2 3 by (simp add: sync_run_append)
  have "range_done st3" using D by (simp add: range_done_def st2_def)
  then have "SyncHandler fetch feedURLs
               (evs1 @ ClosesResults # replicate (length (map fetch order)) Collects)
             = Some (respond st3)"
    using R by (simp add: SyncHandler_def st0_def)
  moreover have "errors st3 = error_strings (map fetch order)"
    "gathered st3 = fetched (map fetch order)"
    using E G by (simp_all add: st2_def st1_def st0_def sync_init_def)
  ultimately show ?thesis using respond_parts[of st3] by metis
qed

text \<open>
  C3. Whatever each fetch returns and in whatever order the goroutines finish, a call
  of \<open>SyncHandler\<close> that has returned reports exactly as many errors as there are failing
  URLs and exactly the articles of the successful fetches, each batch once; the run
  consisted of one send and one receive per URL and the one close. No reachable state is
  stuck, and a complete run exists: no result is lost, none is collected twice.
\<close>

theorem fan_in_complete:
  "(\<forall>schedule resp. SyncHandler fetch feedURLs schedule = Some resp \<longrightarrow>
      length (response_errors resp) = length (filter (failed fetch) feedURLs) \<and>
      mset (response_articles resp) =
        mset (concat (map (\<lambda>u. res_articles (fetch u)) (filter (\<lambda>u. \<not> failed fetch u) feedURLs))) \<and>
      length schedule = 2 * length feedURLs + 1) \<and>
   (\<forall>schedule st. sync_run fetch (sync_init feedURLs) schedule = Some st \<longrightarrow>
      range_done st \<or> (\<exists>ev st'. sync_step fetch st ev = Some st')) \<and>
   (\<exists>schedule resp. SyncHandler fetch feedURLs schedule = Some resp)"
proof (intro conjI allI impI)
  fix schedule resp
  assume "SyncHandler fetch feedURLs schedule = Some resp"
  then obtain st where R: "sync_run fetch (sync_init feedURLs) schedule = Some st"
    and D: "range_done st" and resp: "resp = respond st"
    using SyncHandler_Some by blast
  note T = sync_done_totals[OF R D]
  have "length (errors st) = length (error_strings (map fetch feedURLs))"
    using T(1) by (metis size_mset)
  then show "length (response_errors resp) = length (filter (failed fetch) feedURLs)"
    by (simp add: resp respond_parts error_strings_failure_message)
  show "mset (response_articles resp) =
        mset (concat (map (\<lambda>u. res_articles (fetch u)) (filter (\<lambda>u. \<not> failed fetch u) feedURLs)))"
    using T(2) by (simp add: resp respond_parts fetched_map_fetch)
  show "length schedule = 2 * length feedURLs + 1" by (rule T(3))
next
  fix schedule st
  assume R: "sync_run fetch (sync_init feedURLs) schedule = Some st"
  have "sync_inv fetch feedURLs st" using sync_run_inv[OF sync_inv_init R] by blast
  then show "range_done st \<or> (\<exists>ev st'. sync_step fetch st ev = Some st')"
    using sync_progress by blast
next
  obtain evs st' where "sync_run fetch (sync_init feedURLs) evs = Some st'" "range_done st'"
    using sync_completes[OF sync_inv_init[of fetch feedURLs]] by blast
  then have "SyncHandler fetch feedURLs evs = Some (respond st')" by (simp add: SyncHandler_def)
  then show "\<exists>schedule resp. SyncHandler fetch feedURLs schedule = Some resp" by blast
qed

theorem fan_in_complete_witness:
  "SyncHandler fetch_sample [''ok1'', ''bad'', ''ok2''] schedule_sample =
     Some (StatusPartialContent [art ''ok2'' (Some 1), art ''ok1'' (Some 1)]
            [''http error: 404 Not Found'']) \<and>
   length (response_errors (StatusPartialContent [art ''ok2'' (Some 1), art ''ok1'' (Some 1)]
            [''http error: 404 Not Found''])) =
     length (filter (failed fetch_sample) [''ok1'', ''bad'', ''ok2'']) \<and>
   mset (response_articles (StatusPartialContent [art ''ok2'' (Some 1), art ''ok1'' (Some 1)]
            [''http error: 404 Not Found''])) =
     mset (concat (map (\<lambda>u. res_articles (fetch_sample u))
           (filter (\<lambda>u. \<not> failed fetch_sample u) [''ok1'', ''bad'', ''ok2'']))) \<and>
   length schedule_sample = 2 * length [''ok1'', ''bad'', ''ok2''] + 1"
  using fan_in_complete[of fetch_sample "[''ok1'', ''bad'', ''ok2'']"] SyncHandler_sample
  by blast

text \<open>
  C8 (as amended). When at least one URL fails, the response of \<open>SyncHandler\<close> is the
  partial-content response: it carries the articles of all successful fetches and one
  error string per failing URL, each the message of that URL's error.
\<close>

theorem partial_failure_response:
  assumes "SyncHandler fetch feedURLs schedule = Some resp"
    and "list_ex (failed fetch) feedURLs"
  shows "\<exists>arts errs. resp = StatusPartialContent arts errs \<and>
           mset errs = mset (map (failure_message fetch) (filter (failed fetch) feedURLs)) \<and>
           mset arts = mset (concat (map (\<lambda>u. res_articles (fetch u))
                                     (filter (\<lambda>u. \<not> failed fetch u) feedURLs)))"
proof -
  obtain st where R: "sync_run fetch (sync_init feedURLs) schedule = Some st"
    and D: "range_done st" and resp: "resp = respond st"
    using SyncHandler_Some[OF assms(1)] by blast
  note T = sync_done_totals[OF R D]
  have "filter (failed fetch) feedURLs \<noteq> []"
    using assms(2) by (auto simp: list_ex_iff filter_empty_conv)
  moreover have "length (errors st) = length (error_strings (map fetch feedURLs))"
    using T(1) by (metis size_mset)
  ultimately have "errors st \<noteq> []" by (auto simp: error_strings_failure_message)
  then have "resp = StatusPartialContent (gathered st) (errors st)"
    by (simp add: resp respond_def)
  then show ?thesis using T(1,2) by (simp add: error_strings_failure_message fetched_map_fetch)
qed

theorem partial_failure_response_witness:
  "SyncHandler fetch_sample [''ok1'', ''bad'', ''ok2''] schedule_sample =
     Some (StatusPartialContent [art ''ok2'' (Some 1), art ''ok1'' (Some 1)]
            [''http error: 404 Not Found'']) \<and>
   list_ex (failed fetch_sample) [''ok1'', ''bad'', ''ok2''] \<and>
   mset [''http error: 404 Not Found''] =
     mset (map (failure_message fetch_sample) (filter (failed fetch_sample) [''ok1'', ''bad'', ''ok2'']))"
proof -
  have F: "list_ex (failed fetch_sample) [''ok1'', ''bad'', ''ok2'']"
    by (simp add: failed_def fetch_sample_def)
  from partial_failure_response[OF SyncHandler_sample F] SyncHandler_sample F
  show ?thesis by auto
qed

text \<open>
  C8 as stated fails: a failure entry is the error's message and nothing else. Two calls
  on different URLs that both answer 404 return the same failure list, so the entry does
  not tell which locator failed.
\<close>

theorem failure_entry_without_locator:
  "SyncHandler fetch_404 [''https://a.example/rss''] [Finishes 0, ClosesResults, Collects] =
     Some (StatusPartialContent [] [''http error: 404 Not Found'']) \<and>
   SyncHandler fetch_404 [''https://b.example/rss''] [Finishes 0, ClosesResults, Collects] =
     Some (StatusPartialContent [] [''http error: 404 Not Found''])"
  by (simp add: SyncHandler_404)

section \<open>What a caller can do to the slice it receives\<close>

lemma copy_slice_length: "length (copy_slice h dst src) = length h"
  by (simp add: copy_slice_def Let_def)

lemma copy_slice_frame: "a \<noteq> sl_array dst \<Longrightarrow> copy_slice h dst src ! a = h ! a"
  by (simp add: copy_slice_def Let_def)

lemma GetRecent_api_mem_fresh:
  assumes ok: "slice_ok h (articles_mem s)"
  shows "\<exists>r h1. GetRecent_api_mem h s n = Inr (r, h1) \<and>
           sl_array r = length h \<and> length h1 = Suc (length h) \<and>
           (\<forall>a<length h. h1 ! a = h ! a) \<and>
           elems h1 r = take (nat n) (elems h (articles_mem s))"
proof (cases "n \<le> 0")
  case True
  then show ?thesis
    by (simp add: GetRecent_api_mem_def make_slice_def elems_def nth_append)
next
  case False
  define n' where "n' = (if n > int (sl_len (articles_mem s)) then int (sl_len (articles_mem s)) else n)"
  have n': "0 \<le> n'" "n' \<le> int (sl_len (articles_mem s))" "nat n' = min (nat n) (sl_len (articles_mem s))"
    using False by (auto simp: n'_def)
  have R: "reslice (articles_mem s) n' = Inr ((articles_mem s)\<lparr>sl_len := nat n'\<rparr>)"
    using n' ok by (auto simp: reslice_def slice_ok_def)
  have G: "GetRecent_api_mem h s n =
           Inr (\<lparr>sl_array = length h, sl_len = nat n', sl_cap = nat n'\<rparr>,
                copy_slice (h @ [replicate (nat n') None])
                  \<lparr>sl_array = length h, sl_len = nat n', sl_cap = nat n'\<rparr>
                  ((articles_mem s)\<lparr>sl_len := nat n'\<rparr>))"
    using False R by (simp add: GetRecent_api_mem_def make_slice_def n'_def Let_def)
  have A: "sl_array (articles_mem s) < length h" using ok by (simp add: slice_ok_def)
  have E: "elems (copy_slice (h @ [replicate (nat n') None])
                  \<lparr>sl_array = length h, sl_len = nat n', sl_cap = nat n'\<rparr>
                  ((articles_mem s)\<lparr>sl_len := nat n'\<rparr>))
             \<lparr>sl_array = length h, sl_len = nat n', sl_cap = nat n'\<rparr>
           = take (nat n) (elems h (articles_mem s))"
    using A n' ok by (simp add: elems_def copy_slice_def Let_def nth_append slice_ok_def min_def)
  show ?thesis
    unfolding G using E by (simp add: copy_slice_length copy_slice_frame nth_append)
qed

lemma store_index_frame:
  "store_index h sl i v = Inr h' \<Longrightarrow> a \<noteq> sl_array sl \<Longrightarrow> h' ! a = h ! a"
  by (auto simp: store_index_def split: if_splits)

lemma store_index_length: "store_index h sl i v = Inr h' \<Longrightarrow> length h' = length h"
  by (auto simp: store_index_def split: if_splits)

lemma api_store_isolated:
  assumes ok: "slice_ok h (articles_mem s)"
    and G: "GetRecent_api_mem h s n = Inr (r, h1)"
    and W: "store_index h1 r i v = Inr h2"
  shows "elems h2 (articles_mem s) = elems h (articles_mem s) \<and>
         (\<exists>r' h3. GetRecent_api_mem h2 s m = Inr (r', h3) \<and>
                   elems h3 r' = take (nat m) (elems h (articles_mem s)))"
proof -
  from GetRecent_api_mem_fresh[OF ok, of n] G
  have r: "sl_array r = length h" and l1: "length h1 = Suc (length h)"
    and f1: "\<forall>a<length h. h1 ! a = h ! a"
    by auto
  have A: "sl_array (articles_mem s) < length h" using ok by (simp add: slice_ok_def)
  then have ne: "sl_array (articles_mem s) \<noteq> sl_array r" using r by simp
  have same: "h2 ! sl_array (articles_mem s) = h ! sl_array (articles_mem s)"
    using store_index_frame[OF W ne] f1 A by simp
  then have E: "elems h2 (articles_mem s) = elems h (articles_mem s)" by (simp add: elems_def)
  have "length h2 = Suc (length h)" using store_index_length[OF W] l1 by simp
  then have ok2: "slice_ok h2 (articles_mem s)" using ok same by (simp add: slice_ok_def)
  from GetRecent_api_mem_fresh[OF ok2, of m] E show ?thesis using E by auto
qed
lemma GetRecent_mem_aliases:
  "GetRecent_mem s n = Inr r \<Longrightarrow> sl_array r = sl_array (sorted_mem s)"
  by (auto simp: GetRecent_mem_def reslice_def split: if_splits)

lemma GetRecent_mem_refines:
  assumes "slice_ok h (sorted_mem s)" "elems h (sorted_mem s) = map Some xs"
  shows "map_sum (\<lambda>e. ()) (elems h) (GetRecent_mem s n)
         = map_sum (\<lambda>e. ()) (map Some) (GetRecent \<lparr>cache = cache_mem s, sorted_slice = xs\<rparr> n)"
proof -
  have L: "length xs = sl_len (sorted_mem s)"
    using assms by (metis elems_def length_map length_take min.absorb2 slice_ok_def order_trans)
  have T: "take k (h ! sl_array (sorted_mem s)) = map Some (take k xs)"
    if "k \<le> sl_len (sorted_mem s)" for k
  proof -
    have "take k (h ! sl_array (sorted_mem s)) = take k (elems h (sorted_mem s))"
      using that by (simp add: elems_def min_def)
    then show ?thesis by (simp add: assms(2) take_map)
  qed
  show ?thesis
  proof (cases "n > int (sl_len (sorted_mem s))")
    case True
    then show ?thesis using assms(2) L by (simp add: GetRecent_mem_def GetRecent_def)
  next
    case False
    show ?thesis
    proof (cases "n < 0")
      case True
      then show ?thesis using False L by (simp add: GetRecent_mem_def GetRecent_def reslice_def)
    next
      case nonneg: False
      have "nat n \<le> sl_len (sorted_mem s)" using False nonneg by simp
      from T[OF this] show ?thesis
        using False nonneg L assms(1)
        by (simp add: GetRecent_mem_def GetRecent_def reslice_def elems_def slice_ok_def)
    qed
  qed
qed

lemma GetRecent_api_mem_refines:
  assumes "slice_ok h (articles_mem s)" "elems h (articles_mem s) = map Some xs"
  shows "\<exists>r h1. GetRecent_api_mem h s n = Inr (r, h1) \<and>
                elems h1 r = map Some (GetRecent_api \<lparr>articles = xs\<rparr> n)"
  using GetRecent_api_mem_fresh[OF assms(1), of n] assms(2)
  by (auto simp: GetRecent_api_take take_map)

text \<open>
  C4, the failing input: the go-news store holds two articles, a caller asks for
  \<open>GetRecent 2\<close> and assigns to element 0 of what it got. The slice it got is the
  store's own (same backing array), so the assignment replaces the store's first article,
  and the next \<open>GetRecent 2\<close> returns the caller's value. On the same heap the
  chapter11/api store hands out a fresh array, and the same assignment leaves the store
  and later results as they were (lemma \<open>api_store_isolated\<close>).
\<close>

theorem gonews_GetRecent_aliases_store:
  "GetRecent_mem two_store 2 = Inr (sorted_mem two_store) \<and>
   elems two_heap (sorted_mem two_store) =
     [Some (art ''a'' (Some 10)), Some (art ''b'' (Some 5))] \<and>
   store_index two_heap (sorted_mem two_store) 0 (Some (art ''x'' None)) =
     Inr [[Some (art ''x'' None), Some (art ''b'' (Some 5))]] \<and>
   elems [[Some (art ''x'' None), Some (art ''b'' (Some 5))]] (sorted_mem two_store) =
     [Some (art ''x'' None), Some (art ''b'' (Some 5))]"
  by (simp add: GetRecent_mem_def two_store_def two_heap_def reslice_def elems_def
      store_index_def)

lemma api_store_isolated_example:
  "GetRecent_api_mem two_heap two_store_api 2 =
     Inr (\<lparr>sl_array = 1, sl_len = 2, sl_cap = 2\<rparr>,
          two_heap @ [[Some (art ''a'' (Some 10)), Some (art ''b'' (Some 5))]]) \<and>
   store_index (two_heap @ [[Some (art ''a'' (Some 10)), Some (art ''b'' (Some 5))]])
       \<lparr>sl_array = 1, sl_len = 2, sl_cap = 2\<rparr> 0 (Some (art ''x'' None)) =
     Inr (two_heap @ [[Some (art ''x'' None), Some (art ''b'' (Some 5))]]) \<and>
   elems (two_heap @ [[Some (art ''x'' None), Some (art ''b'' (Some 5))]])
       (articles_mem two_store_api) =
     [Some (art ''a'' (Some 10)), Some (art ''b'' (Some 5))]"
  by (simp add: GetRecent_api_mem_def two_store_api_def two_heap_def make_slice_def
      reslice_def copy_slice_def elems_def store_index_def Let_def)

end
